theory Spec2Isabelle
  imports Complex_Main "HOL-Library.AList" "HOL-Library.Sublist"
begin

section \<open>The multi-agent Atari adapter of PettingZoo (base\_atari\_env.py)\<close>

text \<open>
  The class \<^verbatim>\<open>ParallelAtariEnv\<close> wraps one emulator handle of the library
  \<^verbatim>\<open>multi_agent_ale_py\<close> and repackages the emulator's slot-indexed vectors as
  dictionaries keyed by agent names. The emulator, the seeding helper of gymnasium and the
  file system are not part of the repository: they are parameters of the model (the record
  \<open>externals\<close>), and every theorem holds for all of them.
\<close>

subsection \<open>Python values\<close>

type_synonym AgentID = string
type_synonym ActionType = int
type_synonym path = "string list"

text \<open>
  A Python dictionary keeps its keys in insertion order and holds a key once: an
  association list. Storing under a key that is present replaces the value in place,
  storing under a new key appends (\<open>AList.update\<close>).
\<close>

type_synonym ('k, 'v) dict = "('k \<times> 'v) list"
type_synonym info = "(string, string) dict"

text \<open>The exceptions the modelled code can raise.\<close>

datatype error =
    AssertionError
  | OSError
  | IndexError
  | KeyError
  | ValueError
  | OverflowError
  | AttributeError
  | GymnasiumError

text \<open>A dictionary comprehension \<^verbatim>\<open>{k: v for ...}\<close> over the items it generates.\<close>

definition dict_of :: "('k \<times> 'v) list \<Rightarrow> ('k, 'v) dict" where
  "dict_of items = foldl (\<lambda>d (k, v). AList.update k v d) [] items"

text \<open>A list comprehension whose element expression can raise: the first exception wins.\<close>

fun map_err :: "('a \<Rightarrow> error + 'b) \<Rightarrow> 'a list \<Rightarrow> error + 'b list" where
  "map_err f [] = Inr []"
| "map_err f (x # xs) =
     (case f x of
        Inl e \<Rightarrow> Inl e
      | Inr y \<Rightarrow> (case map_err f xs of Inl e \<Rightarrow> Inl e | Inr ys \<Rightarrow> Inr (y # ys)))"

text \<open>
  Indexing a Python list or a one-dimensional numpy array by one integer: a negative index
  counts from the end, an index out of range raises IndexError.
\<close>

definition py_index :: "'a list \<Rightarrow> int \<Rightarrow> error + 'a" where
  "py_index xs i =
     (let n = int (length xs) in
      if 0 \<le> i \<and> i < n then Inr (xs ! nat i)
      else if - n \<le> i \<and> i < 0 then Inr (xs ! nat (n + i))
      else Inl IndexError)"

subsection \<open>What the adapter consumes\<close>

text \<open>
  \<open>'e\<close> is the state of the emulator, \<open>'o\<close> an observation buffer (RAM or screen),
  \<open>'r\<close> a random generator. An emulator call that changes the emulator returns the new
  state; a query is a function of the state. Emulator calls are taken to succeed.
  \<open>seeding_np_random\<close> is gymnasium's \<^verbatim>\<open>seeding.np_random\<close>, which refuses some seeds;
  \<open>package_dir\<close> is \<^verbatim>\<open>Path(multi_agent_ale_py.__file__).parent\<close>, \<open>resolve\<close> is
  \<^verbatim>\<open>Path(p).resolve()\<close> and \<open>path_exists\<close> is \<^verbatim>\<open>Path.exists\<close>.
\<close>

record ('e, 'o, 'r) externals =
  ALEInterface :: 'e
  setFloat :: "'e \<Rightarrow> string \<Rightarrow> real \<Rightarrow> 'e"
  setInt :: "'e \<Rightarrow> string \<Rightarrow> int \<Rightarrow> 'e"
  loadROM :: "'e \<Rightarrow> path \<Rightarrow> 'e"
  setMode :: "'e \<Rightarrow> int \<Rightarrow> 'e"
  getAvailableModes :: "'e \<Rightarrow> int \<Rightarrow> int list"
  numPlayersActive :: "'e \<Rightarrow> int"
  getMinimalActionSet :: "'e \<Rightarrow> int list"
  getScreenDims :: "'e \<Rightarrow> int \<times> int"
  reset_game :: "'e \<Rightarrow> 'e"
  act :: "'e \<Rightarrow> int list \<Rightarrow> 'e \<times> int list"
  game_over :: "'e \<Rightarrow> bool"
  allLives :: "'e \<Rightarrow> int list"
  getRAM :: "'e \<Rightarrow> 'o"
  getScreenRGB :: "'e \<Rightarrow> 'o"
  getScreenGrayscale :: "'e \<Rightarrow> 'o"
  seeding_np_random :: "int option \<Rightarrow> error + 'r \<times> int"
  package_dir :: path
  resolve :: "string \<Rightarrow> path"
  path_exists :: "path \<Rightarrow> bool"

subsection \<open>The adapter's state\<close>

text \<open>
  The attributes of a \<^verbatim>\<open>ParallelAtariEnv\<close>. \<open>metadata_render_modes\<close>,
  \<open>metadata_name\<close> and \<open>metadata_render_fps\<close> are the three entries of
  \<^verbatim>\<open>self.metadata\<close>. An observation space is the shape of its Box, an action space
  the size of its Discrete. \<open>screen\<close> is \<^verbatim>\<open>self._screen\<close>: the size of the display
  surface and the image last drawn on it. \<^verbatim>\<open>self.terminations\<close> and
  \<^verbatim>\<open>self.frame\<close> are first assigned by \<^verbatim>\<open>reset\<close>: before that they are \<open>None\<close>.
\<close>

record ('e, 'o, 'r) ParallelAtariEnv =
  obs_type :: string
  full_action_space :: bool
  num_players :: int
  max_cycles :: int
  metadata_render_modes :: "string list"
  metadata_name :: string
  metadata_render_fps :: int
  render_mode :: "string option"
  ale :: 'e
  rom_path :: path
  mode :: int
  action_mapping :: "int list"
  agents :: "AgentID list"
  possible_agents :: "AgentID list"
  action_spaces :: "(AgentID, int) dict"
  observation_spaces :: "(AgentID, int list) dict"
  screen :: "((int \<times> int) \<times> 'o) option"
  np_random :: 'r
  self_terminations :: "(AgentID, bool) dict option"
  frame :: "int option"

text \<open>The five dictionaries \<^verbatim>\<open>step\<close> returns.\<close>

record 'o step_return =
  observations :: "(AgentID, 'o) dict"
  rewards :: "(AgentID, int) dict"
  terminations :: "(AgentID, bool) dict"
  truncations :: "(AgentID, bool) dict"
  infos :: "(AgentID, info) dict"

subsection \<open>Observation and rendering\<close>

text \<open>\<^verbatim>\<open>_observe\<close> (lines 216-227).\<close>

definition priv_observe ::
  "('e, 'o, 'r) externals \<Rightarrow> ('e, 'o, 'r) ParallelAtariEnv \<Rightarrow> error + 'o" where
  "priv_observe X self =
     (if obs_type self = ''ram'' then Inr (getRAM X (ale self))
      else if obs_type self = ''rgb_image'' then Inr (getScreenRGB X (ale self))
      else if obs_type self = ''grayscale_image'' then Inr (getScreenGrayscale X (ale self))
      else Inl ValueError)"

text \<open>
  \<^verbatim>\<open>render\<close> (lines 275-308). The result is the returned frame (\<open>None\<close> for Python's
  None) with the warnings written to gymnasium's logger, and the adapter after the call.
  In the human mode the display surface is created on first use with four times the
  emulator's screen size, and the image is drawn on it.
\<close>

definition render_warning :: string where
  "render_warning = ''You are calling render method without specifying any render mode.''"

definition render ::
  "('e, 'o, 'r) externals \<Rightarrow> ('e, 'o, 'r) ParallelAtariEnv \<Rightarrow>
     error + ('o option \<times> string list) \<times> ('e, 'o, 'r) ParallelAtariEnv" where
  "render X self =
     (case render_mode self of
        None \<Rightarrow> Inr ((None, [render_warning]), self)
      | Some rm \<Rightarrow>
          if rm \<notin> set (metadata_render_modes self) then Inl AssertionError
          else
            let (screen_width, screen_height) = getScreenDims X (ale self);
                image = getScreenRGB X (ale self)
            in if rm = ''human'' then
                 let zoom_factor = 4;
                     surface = (case screen self of
                                  None \<Rightarrow> (screen_width * zoom_factor, screen_height * zoom_factor)
                                | Some (sz, shown) \<Rightarrow> sz)
                 in Inr ((None, []), self\<lparr>screen := Some (surface, image)\<rparr>)
               else if rm = ''rgb_array'' then Inr ((Some image, []), self)
               else Inr ((None, []), self))"

subsection \<open>step\<close>

text \<open>
  Modelled from the spec: \<^verbatim>\<open>max_num_agents\<close> is a property that
  \<^verbatim>\<open>ParallelAtariEnv\<close> inherits from \<^verbatim>\<open>pettingzoo.utils.env.ParallelEnv\<close>, which is
  not among the source files. The spec: "Build a dense action vector sized to the full
  possible-agent roster".
\<close>

definition max_num_agents :: "('e, 'o, 'r) ParallelAtariEnv \<Rightarrow> nat" where
  "max_num_agents self = length (possible_agents self)"

text \<open>
  Lines 239-241: the loop over \<^verbatim>\<open>enumerate(self.possible_agents)\<close> that stores the
  supplied actions into the int32 vector \<open>actions\<close>. A store outside the vector raises
  IndexError; a Python integer outside the int32 range raises OverflowError (NumPy 2).
\<close>

fun fill_actions ::
  "(AgentID, ActionType) dict \<Rightarrow> (nat \<times> AgentID) list \<Rightarrow> int list \<Rightarrow> error + int list" where
  "fill_actions action_dict [] actions = Inr actions"
| "fill_actions action_dict ((i, agent) # rest) actions =
     (case map_of action_dict agent of
        None \<Rightarrow> fill_actions action_dict rest actions
      | Some a \<Rightarrow>
          if length actions \<le> i then Inl IndexError
          else if a < - (2 ^ 31) \<or> 2 ^ 31 \<le> a then Inl OverflowError
          else fill_actions action_dict rest (actions[i := a]))"

text \<open>
  Lines 238-243: the vector of zeros, the loop, and \<^verbatim>\<open>self.action_mapping[actions]\<close>,
  which indexes the table once per slot.
\<close>

definition native_actions ::
  "('e, 'o, 'r) ParallelAtariEnv \<Rightarrow> (AgentID, ActionType) dict \<Rightarrow> error + int list" where
  "native_actions self action_dict =
     (case fill_actions action_dict (enumerate 0 (possible_agents self))
             (replicate (max_num_agents self) 0) of
        Inl e \<Rightarrow> Inl e
      | Inr actions \<Rightarrow> map_err (py_index (action_mapping self)) actions)"

text \<open>
  Line 269: \<^verbatim>\<open>[agent for agent in self.agents if not terminations[agent]]\<close>. The
  subscript raises KeyError for an agent the dictionary lacks.
\<close>

definition prune :: "(AgentID, bool) dict \<Rightarrow> AgentID list \<Rightarrow> error + AgentID list" where
  "prune terms active =
     (case map_err (\<lambda>agent. case map_of terms agent of
                               None \<Rightarrow> Inl KeyError
                             | Some t \<Rightarrow> Inr (agent, t)) active of
        Inl e \<Rightarrow> Inl e
      | Inr flagged \<Rightarrow> Inr (map fst (filter (\<lambda>(agent, t). \<not> t) flagged)))"

text \<open>
  \<^verbatim>\<open>step\<close> (lines 229-273). An exception ends the call: the model returns the
  exception alone, without the partly updated adapter.
\<close>

definition step ::
  "('e, 'o, 'r) externals \<Rightarrow> ('e, 'o, 'r) ParallelAtariEnv \<Rightarrow> (AgentID, ActionType) dict \<Rightarrow>
     error + 'o step_return \<times> ('e, 'o, 'r) ParallelAtariEnv" where
  "step X self action_dict =
     (case native_actions self action_dict of
        Inl e \<Rightarrow> Inl e
      | Inr actions \<Rightarrow>
     (case act X (ale self) actions of (ale1, rews) \<Rightarrow>
     (case frame self of
        None \<Rightarrow> Inl AttributeError
      | Some f \<Rightarrow>
     (let self1 = self\<lparr>ale := ale1, frame := Some (f + 1)\<rparr>;
          truncs = dict_of (map (\<lambda>agent. (agent, max_cycles self1 \<le> f + 1)) (agents self1));
          terms =
            (if game_over X ale1 then dict_of (map (\<lambda>agent. (agent, True)) (agents self1))
             else dict_of (map (\<lambda>(agent, life). (agent, life < 0))
                    (filter (\<lambda>(agent, life). agent \<in> set (agents self1))
                       (zip (possible_agents self1) (allLives X ale1)))))
      in (case priv_observe X self1 of
            Inl e \<Rightarrow> Inl e
          | Inr obs \<Rightarrow>
         (let ret = \<lparr>observations = dict_of (map (\<lambda>agent. (agent, obs)) (agents self1)),
                     rewards = dict_of (filter (\<lambda>(agent, rew). agent \<in> set (agents self1))
                                 (zip (possible_agents self1) rews)),
                     terminations = terms,
                     truncations = truncs,
                     infos = dict_of (map (\<lambda>agent. (agent, []))
                               (filter (\<lambda>agent. agent \<in> set (agents self1))
                                  (possible_agents self1)))\<rparr>
          in (case prune terms (agents self1) of
                Inl e \<Rightarrow> Inl e
              | Inr kept \<Rightarrow>
                  (let self2 = self1\<lparr>agents := kept\<rparr>
                   in if render_mode self2 = Some ''human'' then
                        (case render X self2 of
                           Inl e \<Rightarrow> Inl e
                         | Inr (shown, self3) \<Rightarrow> Inr (ret, self3))
                      else Inr (ret, self2)))))))))"

subsection \<open>reset\<close>

text \<open>
  \<^verbatim>\<open>_seed\<close> (lines 186-190) reads \<^verbatim>\<open>self.ale\<close>, \<^verbatim>\<open>self.rom_path\<close> and
  \<^verbatim>\<open>self.mode\<close>, and assigns \<^verbatim>\<open>self.np_random\<close> and the emulator: the model takes
  the three and returns the two.
\<close>

definition priv_seed ::
  "('e, 'o, 'r) externals \<Rightarrow> 'e \<Rightarrow> path \<Rightarrow> int \<Rightarrow> int option \<Rightarrow> error + 'r \<times> 'e" where
  "priv_seed X emu rom md seed =
     (case seeding_np_random X seed of
        Inl e \<Rightarrow> Inl e
      | Inr (rng, seed1) \<Rightarrow>
          Inr (rng, setMode X (loadROM X (setInt X emu ''random_seed'' seed1) rom) md))"

text \<open>
  \<^verbatim>\<open>reset\<close> (lines 192-208); the argument \<^verbatim>\<open>options\<close> is not read. It returns the
  observations and the infos, and the adapter after the call.
\<close>

definition reset ::
  "('e, 'o, 'r) externals \<Rightarrow> ('e, 'o, 'r) ParallelAtariEnv \<Rightarrow> int option \<Rightarrow>
     error + ((AgentID, 'o) dict \<times> (AgentID, info) dict) \<times> ('e, 'o, 'r) ParallelAtariEnv" where
  "reset X self seed =
     (case (case seed of
              Some s \<Rightarrow>
                (case priv_seed X (ale self) (rom_path self) (mode self) seed of
                   Inl e \<Rightarrow> Inl e
                 | Inr (rng, emu) \<Rightarrow> Inr (self\<lparr>ale := emu, np_random := rng\<rparr>))
            | None \<Rightarrow>
                (case seeding_np_random X None of
                   Inl e \<Rightarrow> Inl e
                 | Inr (rng, seed1) \<Rightarrow> Inr (self\<lparr>np_random := rng\<rparr>))) of
        Inl e \<Rightarrow> Inl e
      | Inr self1 \<Rightarrow>
          (let self2 = self1\<lparr>ale := reset_game X (ale self1),
                            agents := possible_agents self1,
                            self_terminations :=
                              Some (dict_of (map (\<lambda>agent. (agent, False)) (possible_agents self1))),
                            frame := Some 0\<rparr>
           in (case priv_observe X self2 of
                 Inl e \<Rightarrow> Inl e
               | Inr obs \<Rightarrow>
                   Inr ((dict_of (map (\<lambda>agent. (agent, obs)) (agents self2)),
                         dict_of (map (\<lambda>agent. (agent, []))
                           (filter (\<lambda>agent. agent \<in> set (agents self2)) (possible_agents self2)))),
                        self2))))"

subsection \<open>Construction\<close>

text \<open>The arguments of \<^verbatim>\<open>__init__\<close>, and their defaults.\<close>

record init_args =
  arg_game :: string
  arg_num_players :: int
  arg_mode_num :: "int option"
  arg_seed :: "int option"
  arg_obs_type :: string
  arg_full_action_space :: bool
  arg_env_name :: "string option"
  arg_max_cycles :: int
  arg_render_mode :: "string option"
  arg_auto_rom_install_path :: "string option"

definition default_args :: "string \<Rightarrow> int \<Rightarrow> init_args" where
  "default_args g n =
     \<lparr>arg_game = g, arg_num_players = n, arg_mode_num = None, arg_seed = None,
      arg_obs_type = ''rgb_image'', arg_full_action_space = False, arg_env_name = None,
      arg_max_cycles = 100000, arg_render_mode = None, arg_auto_rom_install_path = None\<rparr>"

text \<open>Lines 107-110: the directory the search starts from.\<close>

definition rom_start :: "('e, 'o, 'r) externals \<Rightarrow> init_args \<Rightarrow> path" where
  "rom_start X args =
     (case arg_auto_rom_install_path args of
        None \<Rightarrow> package_dir X
      | Some p \<Rightarrow> resolve X p)"

text \<open>
  Lines 112-126: the three places the ROM is looked for, in order. A path is the list of
  its components under \<open>start\<close>.
\<close>

definition find_rom :: "('e, 'o, 'r) externals \<Rightarrow> path \<Rightarrow> string \<Rightarrow> error + path" where
  "find_rom X start g =
     (let final0 = start @ [g @ ''.bin''];
          final1 = (if \<not> path_exists X final0 then start @ [''roms'', g @ ''.bin''] else final0);
          final2 = (if \<not> path_exists X final1 then start @ [''ROM'', g, g @ ''.bin''] else final1)
      in if \<not> path_exists X final2 then Inl OSError else Inr final2)"

text \<open>Lines 102-105 and 129: the fresh emulator with the ROM at \<open>final\<close> loaded.\<close>

definition rom_loaded :: "('e, 'o, 'r) externals \<Rightarrow> path \<Rightarrow> 'e" where
  "rom_loaded X final =
     loadROM X (setFloat X (ALEInterface X) ''repeat_action_probability'' 0) final"

text \<open>Lines 133-139: the mode, the first available one when none is requested.\<close>

definition select_mode :: "int list \<Rightarrow> int option \<Rightarrow> error + int" where
  "select_mode all_modes md =
     (case md of
        None \<Rightarrow> py_index all_modes 0
      | Some m \<Rightarrow> if m \<in> set all_modes then Inr m else Inl AssertionError)"

definition player_names :: "string list" where
  "player_names = [''first'', ''second'', ''third'', ''fourth'']"

text \<open>Line 172: one agent name per \<^verbatim>\<open>n in range(num_players)\<close>.\<close>

definition make_agents :: "int \<Rightarrow> error + AgentID list" where
  "make_agents n =
     map_err (\<lambda>k. case py_index player_names (int k) of
                     Inl e \<Rightarrow> Inl e
                   | Inr name \<Rightarrow> Inr (name @ ''_0'')) [0..<nat n]"

text \<open>
  \<^verbatim>\<open>__init__\<close> (lines 52-184). The class-wide logger setting and the pickling record
  are left out.
\<close>

definition init ::
  "('e, 'o, 'r) externals \<Rightarrow> init_args \<Rightarrow> error + ('e, 'o, 'r) ParallelAtariEnv" where
  "init X args =
     (if arg_obs_type args \<notin> {''ram'', ''rgb_image'', ''grayscale_image''} then Inl AssertionError
      else
     (case find_rom X (rom_start X args) (arg_game args) of
        Inl e \<Rightarrow> Inl e
      | Inr final \<Rightarrow>
     (let ale1 = rom_loaded X final;
          all_modes = getAvailableModes X ale1 (arg_num_players args)
      in (case select_mode all_modes (arg_mode_num args) of
            Inl e \<Rightarrow> Inl e
          | Inr md \<Rightarrow>
         (let ale2 = setMode X ale1 md
          in if arg_num_players args \<noteq> numPlayersActive X ale2 then Inl AssertionError
             else
            (let mapping = (if arg_full_action_space args then map int [0..<18]
                            else getMinimalActionSet X ale2);
                 action_size = int (length mapping);
                 observation_space =
                   (if arg_obs_type args = ''ram'' then [128]
                    else (case getScreenDims X ale2 of (screen_width, screen_height) \<Rightarrow>
                            [screen_height, screen_width,
                             if arg_obs_type args = ''rgb_image'' then 3 else 1]))
             in (case make_agents (arg_num_players args) of
                   Inl e \<Rightarrow> Inl e
                 | Inr names \<Rightarrow>
                (case priv_seed X ale2 final md (arg_seed args) of
                   Inl e \<Rightarrow> Inl e
                 | Inr (rng, ale3) \<Rightarrow>
                     Inr \<lparr>obs_type = arg_obs_type args,
                          full_action_space = arg_full_action_space args,
                          num_players = arg_num_players args,
                          max_cycles = arg_max_cycles args,
                          metadata_render_modes = [''human'', ''rgb_array''],
                          metadata_name = (case arg_env_name args of
                                             None \<Rightarrow> ''custom_'' @ arg_game args
                                           | Some name \<Rightarrow> name),
                          metadata_render_fps = 60,
                          render_mode = arg_render_mode args,
                          ale = ale3,
                          rom_path = final,
                          mode = md,
                          action_mapping = mapping,
                          agents = names,
                          possible_agents = names,
                          action_spaces = dict_of (map (\<lambda>agent. (agent, action_size)) names),
                          observation_spaces =
                            dict_of (map (\<lambda>agent. (agent, observation_space)) names),
                          screen = None,
                          np_random = rng,
                          self_terminations = None,
                          frame = None\<rparr>))))))))"

subsection \<open>Episodes and the invariant of the agent lists\<close>

text \<open>The keys of a dictionary, in its order.\<close>

definition keys :: "('k, 'v) dict \<Rightarrow> 'k list" where
  "keys d = map fst d"

text \<open>
  A caller's episode: the calls of \<^verbatim>\<open>step\<close> after a \<^verbatim>\<open>reset\<close>, one per action
  dictionary, each on the adapter the call before left. The trace holds what each call
  returned and the adapter after it.
\<close>

fun episode ::
  "('e, 'o, 'r) externals \<Rightarrow> ('e, 'o, 'r) ParallelAtariEnv \<Rightarrow> (AgentID, ActionType) dict list \<Rightarrow>
     error + ('o step_return \<times> ('e, 'o, 'r) ParallelAtariEnv) list" where
  "episode X self [] = Inr []"
| "episode X self (action_dict # later) =
     (case step X self action_dict of
        Inl e \<Rightarrow> Inl e
      | Inr (ret, self') \<Rightarrow>
          (case episode X self' later of
             Inl e \<Rightarrow> Inl e
           | Inr trace \<Rightarrow> Inr ((ret, self') # trace)))"

text \<open>The adapter after the first \<open>k\<close> steps of a trace that started from \<open>self\<close>.\<close>

definition env_after ::
  "('e, 'o, 'r) ParallelAtariEnv \<Rightarrow> ('o step_return \<times> ('e, 'o, 'r) ParallelAtariEnv) list \<Rightarrow> nat \<Rightarrow>
     ('e, 'o, 'r) ParallelAtariEnv" where
  "env_after self trace k = (if k = 0 then self else snd (trace ! (k - 1)))"

text \<open>
  What construction establishes and \<^verbatim>\<open>reset\<close> and \<^verbatim>\<open>step\<close> keep: the roster has
  no agent twice, and the active agents are a subsequence of it.
\<close>

definition env_inv :: "('e, 'o, 'r) ParallelAtariEnv \<Rightarrow> bool" where
  "env_inv self \<longleftrightarrow> distinct (possible_agents self) \<and> subseq (agents self) (possible_agents self)"

subsection \<open>A small emulator for concrete runs\<close>

text \<open>
  A two-player emulator whose state is the number of ticks since the last reset. It
  echoes the native action codes as rewards, eliminates the second player at the second
  tick and ends the game at the third. Observations are the tick count. Its only ROM is
  \<^verbatim>\<open>roms/pong.bin\<close> in the package directory.
\<close>

definition demo_X :: "(nat, nat, unit) externals" where
  "demo_X =
     \<lparr>ALEInterface = 0,
      setFloat = (\<lambda>e name v. e),
      setInt = (\<lambda>e name v. e),
      loadROM = (\<lambda>e p. e),
      setMode = (\<lambda>e m. e),
      getAvailableModes = (\<lambda>e n. if n = 2 then [19] else if n = 4 then [21] else []),
      numPlayersActive = (\<lambda>e. 2),
      getMinimalActionSet = (\<lambda>e. [0, 1, 3, 4, 11, 12]),
      getScreenDims = (\<lambda>e. (160, 210)),
      reset_game = (\<lambda>e. 0),
      act = (\<lambda>e v. (Suc e, v)),
      game_over = (\<lambda>e. 3 \<le> e),
      allLives = (\<lambda>e. [0, if 2 \<le> e then - 1 else 0]),
      getRAM = (\<lambda>e. e),
      getScreenRGB = (\<lambda>e. e),
      getScreenGrayscale = (\<lambda>e. e),
      seeding_np_random = (\<lambda>s. case s of None \<Rightarrow> Inr ((), 0)
                                 | Some n \<Rightarrow> if n < 0 then Inl GymnasiumError else Inr ((), n)),
      package_dir = [''ale''],
      resolve = (\<lambda>p. [p]),
      path_exists = (\<lambda>p. p = [''ale'', ''roms'', ''pong.bin''])\<rparr>"

text \<open>
  The adapter built over this emulator for \<^verbatim>\<open>game="pong", num_players=2,
  mode_num=19, max_cycles=2\<close>, at a given tick, with given active agents and frame
  counter (before the first \<^verbatim>\<open>reset\<close> the counter is \<open>None\<close>), and a value returned by
  \<^verbatim>\<open>step\<close>, whose infos are empty for every agent that has a termination flag.
\<close>

definition demo_env :: "nat \<Rightarrow> AgentID list \<Rightarrow> int option \<Rightarrow> (nat, nat, unit) ParallelAtariEnv" where
  "demo_env tick active fr =
     \<lparr>obs_type = ''rgb_image'', full_action_space = False, num_players = 2,
      max_cycles = 2, metadata_render_modes = [''human'', ''rgb_array''],
      metadata_name = ''custom_pong'', metadata_render_fps = 60,
      render_mode = None, ale = tick,
      rom_path = [''ale'', ''roms'', ''pong.bin''], mode = 19,
      action_mapping = [0, 1, 3, 4, 11, 12],
      agents = active,
      possible_agents = [''first_0'', ''second_0''],
      action_spaces = [(''first_0'', 6), (''second_0'', 6)],
      observation_spaces = [(''first_0'', [210, 160, 3]), (''second_0'', [210, 160, 3])],
      screen = None, np_random = (),
      self_terminations = (case fr of None \<Rightarrow> None
                           | Some f \<Rightarrow> Some [(''first_0'', False), (''second_0'', False)]),
      frame = fr\<rparr>"

definition demo_ret :: "(AgentID, nat) dict \<Rightarrow> (AgentID, int) dict \<Rightarrow> (AgentID, bool) dict \<Rightarrow>
    (AgentID, bool) dict \<Rightarrow> nat step_return" where
  "demo_ret obs rews terms truncs =
     \<lparr>observations = obs, rewards = rews, terminations = terms, truncations = truncs,
      infos = map (\<lambda>(agent, t). (agent, [])) terms\<rparr>"

section \<open>Properties\<close>

subsection \<open>Dictionaries and comprehensions\<close>

lemma update_fresh: "k \<notin> fst ` set d \<Longrightarrow> AList.update k v d = d @ [(k, v)]"
  by (induction d) auto

lemma foldl_update_keys:
  "set (map fst (foldl (\<lambda>d (k, v). AList.update k v d) d xs)) = set (map fst d) \<union> set (map fst xs)"
proof (induction xs arbitrary: d)
  case Nil
  show ?case by simp
next
  case (Cons x xs)
  obtain k v where x: "x = (k, v)" by (cases x)
  have "set (map fst (AList.update k v d)) = insert k (set (map fst d))"
    using dom_update [of k v d] by simp
  with Cons [of "AList.update k v d"] show ?case by (auto simp: x)
qed

lemma foldl_update_distinct:
  "distinct (map fst d) \<Longrightarrow> distinct (map fst (foldl (\<lambda>d (k, v). AList.update k v d) d xs))"
proof (induction xs arbitrary: d)
  case Nil
  then show ?case by simp
next
  case (Cons x xs)
  obtain k v where x: "x = (k, v)" by (cases x)
  from Cons.prems have "distinct (map fst (AList.update k v d))" by (rule distinct_update)
  from Cons.IH [OF this] show ?case by (simp add: x)
qed

lemma foldl_update_map_of:
  "map_of (foldl (\<lambda>d (k, v). AList.update k v d) d xs) = map_of d ++ map_of (rev xs)"
proof (induction xs arbitrary: d)
  case Nil
  show ?case by simp
next
  case (Cons x xs)
  obtain k v where x: "x = (k, v)" by (cases x)
  show ?case
    by (simp add: x Cons update_conv' map_add_upd_left fun_eq_iff map_add_def split: option.splits)
qed

lemma foldl_update_fresh:
  "distinct (map fst (d @ xs)) \<Longrightarrow> foldl (\<lambda>d (k, v). AList.update k v d) d xs = d @ xs"
proof (induction xs arbitrary: d)
  case Nil
  show ?case by simp
next
  case (Cons x xs)
  obtain k v where x: "x = (k, v)" by (cases x)
  from Cons.prems have fresh: "k \<notin> fst ` set d" by (auto simp: x)
  have "distinct (map fst ((d @ [(k, v)]) @ xs))" using Cons.prems by (simp add: x)
  from Cons.IH [OF this] show ?case by (simp add: x update_fresh [OF fresh])
qed

lemma keys_dict_of: "set (keys (dict_of xs)) = fst ` set xs"
  unfolding keys_def dict_of_def using foldl_update_keys [of "[]" xs] by simp

lemma distinct_keys_dict_of: "distinct (keys (dict_of xs))"
  unfolding keys_def dict_of_def by (rule foldl_update_distinct) simp

lemma map_of_dict_of: "map_of (dict_of xs) = map_of (rev xs)"
  unfolding dict_of_def by (simp add: foldl_update_map_of)

lemma dict_of_distinct: "distinct (map fst xs) \<Longrightarrow> dict_of xs = xs"
  unfolding dict_of_def using foldl_update_fresh [of "[]" xs] by simp

lemma map_of_const:
  "map_of (dict_of (map (\<lambda>a. (a, c)) xs)) a = (if a \<in> set xs then Some c else None)"
proof (cases "a \<in> set xs")
  case True
  then have "map_of (rev (map (\<lambda>a. (a, c)) xs)) a \<noteq> None"
    by (simp add: map_of_eq_None_iff image_iff)
  then obtain v where v: "map_of (rev (map (\<lambda>a. (a, c)) xs)) a = Some v" by blast
  then have "(a, v) \<in> set (rev (map (\<lambda>a. (a, c)) xs))" by (rule map_of_SomeD)
  then have "v = c" by auto
  with v True show ?thesis by (simp add: map_of_dict_of)
next
  case False
  then have "map_of (rev (map (\<lambda>a. (a, c)) xs)) a = None"
    by (simp add: map_of_eq_None_iff image_iff)
  with False show ?thesis by (simp add: map_of_dict_of)
qed

lemma map_err_Inr:
  "map_err f xs = Inr ys \<Longrightarrow> length ys = length xs \<and> (\<forall>i < length xs. f (xs ! i) = Inr (ys ! i))"
proof (induction xs arbitrary: ys)
  case Nil
  then show ?case by simp
next
  case (Cons x xs)
  then show ?case
    by (auto split: sum.splits simp: nth_Cons split: nat.splits)
qed

lemma keys_filter_zip:
  "map fst (filter (\<lambda>(a, b). P a) (zip xs ys)) = filter P (take (length ys) xs)"
proof (induction xs ys rule: list_induct2')
  case (4 x xs y ys)
  then show ?case by simp
qed simp_all

lemma keys_map_snd: "map fst (map (\<lambda>(a, b). (a, g b)) zs) = map fst zs"
  by (induction zs) auto

lemma subseq_subset: "subseq xs ys \<Longrightarrow> set xs \<subseteq> set ys"
  using list_emb_set [of "(=)" xs ys] by auto

lemma subseq_distinct: "subseq xs ys \<Longrightarrow> distinct ys \<Longrightarrow> distinct xs"
  by (induction rule: list_emb.induct) (auto dest: subseq_subset)

subsection \<open>The action vector\<close>

lemma fill_actions_Inr:
  "fill_actions action_dict (enumerate n xs) acc = Inr out \<Longrightarrow>
     length out = length acc
     \<and> (\<forall>j < length acc. out ! j =
           (if n \<le> j \<and> j < n + length xs
            then (case map_of action_dict (xs ! (j - n)) of None \<Rightarrow> acc ! j | Some a \<Rightarrow> a)
            else acc ! j))"
proof (induction xs arbitrary: n acc)
  case Nil
  then show ?case by simp
next
  case (Cons x xs)
  show ?case
  proof (cases "map_of action_dict x")
    case None
    with Cons.prems have "fill_actions action_dict (enumerate (Suc n) xs) acc = Inr out" by simp
    from Cons.IH [OF this] have len: "length out = length acc"
      and nth: "\<And>j. j < length acc \<Longrightarrow> out ! j =
           (if Suc n \<le> j \<and> j < Suc n + length xs
            then (case map_of action_dict (xs ! (j - Suc n)) of None \<Rightarrow> acc ! j | Some a \<Rightarrow> a)
            else acc ! j)" by blast+
    have "out ! j = (if n \<le> j \<and> j < n + length (x # xs)
            then (case map_of action_dict ((x # xs) ! (j - n)) of None \<Rightarrow> acc ! j | Some a \<Rightarrow> a)
            else acc ! j)" if j: "j < length acc" for j
    proof (cases "j = n")
      case True
      with nth [OF j] None show ?thesis by simp
    next
      case False
      then have "n \<le> j \<Longrightarrow> (x # xs) ! (j - n) = xs ! (j - Suc n)"
        by (simp add: nth_Cons')
      with nth [OF j] False show ?thesis by (auto split: option.splits)
    qed
    with len show ?thesis by blast
  next
    case (Some a)
    with Cons.prems have n: "n < length acc"
      and rec: "fill_actions action_dict (enumerate (Suc n) xs) (acc[n := a]) = Inr out"
      by (auto split: if_splits)
    from Cons.IH [OF rec] have len: "length out = length acc"
      and nth: "\<And>j. j < length acc \<Longrightarrow> out ! j =
           (if Suc n \<le> j \<and> j < Suc n + length xs
            then (case map_of action_dict (xs ! (j - Suc n)) of None \<Rightarrow> acc[n := a] ! j | Some a \<Rightarrow> a)
            else acc[n := a] ! j)" by simp_all
    have "out ! j = (if n \<le> j \<and> j < n + length (x # xs)
            then (case map_of action_dict ((x # xs) ! (j - n)) of None \<Rightarrow> acc ! j | Some a \<Rightarrow> a)
            else acc ! j)" if j: "j < length acc" for j
    proof (cases "j = n")
      case True
      with nth [OF j] Some n show ?thesis by simp
    next
      case False
      then have "n \<le> j \<Longrightarrow> (x # xs) ! (j - n) = xs ! (j - Suc n)"
        by (simp add: nth_Cons')
      with nth [OF j] False show ?thesis by (auto split: option.splits)
    qed
    with len show ?thesis by blast
  qed
qed

subsection \<open>What a call that returns did\<close>

lemma prune_Inr:
  assumes "prune terms active = Inr kept"
  shows "kept = filter (\<lambda>a. map_of terms a = Some False) active"
    and "\<And>a. a \<in> set active \<Longrightarrow> map_of terms a \<noteq> None"
proof -
  let ?f = "\<lambda>agent. case map_of terms agent of None \<Rightarrow> Inl KeyError | Some t \<Rightarrow> Inr (agent, t)"
  have gen: "map_err ?f xs = Inr fl \<Longrightarrow>
      map fst (filter (\<lambda>(agent, t). \<not> t) fl) = filter (\<lambda>a. map_of terms a = Some False) xs
      \<and> (\<forall>a \<in> set xs. map_of terms a \<noteq> None)" for xs fl
  proof (induction xs arbitrary: fl)
    case Nil
    then show ?case by simp
  next
    case (Cons x xs)
    then show ?case by (auto split: sum.splits option.splits)
  qed
  from assms obtain fl where fl: "map_err ?f active = Inr fl"
    and kept: "kept = map fst (filter (\<lambda>(agent, t). \<not> t) fl)"
    by (auto simp: prune_def split: sum.splits)
  from gen [OF fl] kept show "kept = filter (\<lambda>a. map_of terms a = Some False) active" by simp
  from gen [OF fl] show "\<And>a. a \<in> set active \<Longrightarrow> map_of terms a \<noteq> None" by blast
qed

lemma prune_keys:
  assumes "prune terms active = Inr kept"
  shows "set active \<subseteq> set (keys terms)"
proof
  fix a assume "a \<in> set active"
  with prune_Inr(2) [OF assms] have "map_of terms a \<noteq> None" by blast
  then show "a \<in> set (keys terms)" by (simp add: keys_def map_of_eq_None_iff)
qed

lemma render_Inr: "render X s = Inr (r, s') \<Longrightarrow> s'\<lparr>screen := screen s\<rparr> = s"
  by (auto simp: render_def Let_def split: option.splits if_splits prod.splits)

lemma render_fields:
  assumes "render X s = Inr (r, s')"
  shows "agents s' = agents s" "possible_agents s' = possible_agents s" "frame s' = frame s"
    "max_cycles s' = max_cycles s" "ale s' = ale s"
proof -
  from render_Inr [OF assms] have e: "s'\<lparr>screen := screen s\<rparr> = s" .
  have "agents (s'\<lparr>screen := screen s\<rparr>) = agents s" by (simp only: e)
  then show "agents s' = agents s" by simp
  have "possible_agents (s'\<lparr>screen := screen s\<rparr>) = possible_agents s" by (simp only: e)
  then show "possible_agents s' = possible_agents s" by simp
  have "frame (s'\<lparr>screen := screen s\<rparr>) = frame s" by (simp only: e)
  then show "frame s' = frame s" by simp
  have "max_cycles (s'\<lparr>screen := screen s\<rparr>) = max_cycles s" by (simp only: e)
  then show "max_cycles s' = max_cycles s" by simp
  have "ale (s'\<lparr>screen := screen s\<rparr>) = ale s" by (simp only: e)
  then show "ale s' = ale s" by simp
qed

lemma step_InrE:
  assumes "step X self action_dict = Inr (ret, self')"
  obtains v f obs where
    "native_actions self action_dict = Inr v"
    "frame self = Some f"
    "observations ret = dict_of (map (\<lambda>agent. (agent, obs)) (agents self))"
    "rewards ret = dict_of (filter (\<lambda>(agent, rew). agent \<in> set (agents self))
                     (zip (possible_agents self) (snd (act X (ale self) v))))"
    "terminations ret =
       (if game_over X (fst (act X (ale self) v))
        then dict_of (map (\<lambda>agent. (agent, True)) (agents self))
        else dict_of (map (\<lambda>(agent, life). (agent, life < 0))
               (filter (\<lambda>(agent, life). agent \<in> set (agents self))
                  (zip (possible_agents self) (allLives X (fst (act X (ale self) v)))))))"
    "truncations ret = dict_of (map (\<lambda>agent. (agent, max_cycles self \<le> f + 1)) (agents self))"
    "infos ret = dict_of (map (\<lambda>agent. (agent, []))
                   (filter (\<lambda>agent. agent \<in> set (agents self)) (possible_agents self)))"
    "prune (terminations ret) (agents self) = Inr (agents self')"
    "ale self' = fst (act X (ale self) v)"
    "frame self' = Some (f + 1)"
    "possible_agents self' = possible_agents self"
    "max_cycles self' = max_cycles self"
proof -
  from assms obtain v where v: "native_actions self action_dict = Inr v"
    by (auto simp: step_def split: sum.splits)
  obtain ale1 rews where a: "act X (ale self) v = (ale1, rews)" by (cases "act X (ale self) v")
  from assms v a obtain f where f: "frame self = Some f"
    by (auto simp: step_def split: option.splits)
  define self1 where "self1 = self\<lparr>ale := ale1, frame := Some (f + 1)\<rparr>"
  from assms v a f obtain obs where o: "priv_observe X self1 = Inr obs"
    by (auto simp: step_def self1_def Let_def split: sum.splits)
  define terms where "terms =
       (if game_over X ale1
        then dict_of (map (\<lambda>agent. (agent, True)) (agents self))
        else dict_of (map (\<lambda>(agent, life). (agent, life < 0))
               (filter (\<lambda>(agent, life). agent \<in> set (agents self))
                  (zip (possible_agents self) (allLives X ale1)))))"
  from assms v a f o obtain kept where k: "prune terms (agents self) = Inr kept"
    by (auto simp: step_def self1_def terms_def Let_def split: sum.splits if_splits)
  define self2 where "self2 = self1\<lparr>agents := kept\<rparr>"
  from assms v a f o k have ret:
    "ret = \<lparr>observations = dict_of (map (\<lambda>agent. (agent, obs)) (agents self)),
            rewards = dict_of (filter (\<lambda>(agent, rew). agent \<in> set (agents self))
                        (zip (possible_agents self) rews)),
            terminations = terms,
            truncations = dict_of (map (\<lambda>agent. (agent, max_cycles self \<le> f + 1)) (agents self)),
            infos = dict_of (map (\<lambda>agent. (agent, []))
                      (filter (\<lambda>agent. agent \<in> set (agents self)) (possible_agents self)))\<rparr>"
    by (auto simp: step_def self1_def terms_def Let_def split: sum.splits if_splits)
  from assms v a f o k have fin:
    "self' = self2 \<or> (\<exists>shown. render X self2 = Inr (shown, self'))"
    by (auto simp: step_def self1_def self2_def terms_def Let_def split: sum.splits if_splits)
  have fields: "agents self' = kept \<and> ale self' = ale1 \<and> frame self' = Some (f + 1)
      \<and> possible_agents self' = possible_agents self \<and> max_cycles self' = max_cycles self"
    using fin
  proof
    assume "self' = self2"
    then show ?thesis by (simp add: self2_def self1_def)
  next
    assume "\<exists>shown. render X self2 = Inr (shown, self')"
    then obtain shown where "render X self2 = Inr (shown, self')" ..
    from render_fields [OF this] show ?thesis by (simp add: self2_def self1_def)
  qed
  show thesis
    by (rule that [of v f obs]) (use v f a k ret fields in \<open>simp_all add: terms_def\<close>)
qed

lemma terminations_keys_of_step:
  assumes "step X self action_dict = Inr (ret, self')"
  shows "set (keys (terminations ret)) = set (agents self)"
proof
  from assms show "set (agents self) \<subseteq> set (keys (terminations ret))"
    by (elim step_InrE) (rule prune_keys)
  from assms show "set (keys (terminations ret)) \<subseteq> set (agents self)"
  proof (elim step_InrE)
    fix v f obs
    assume t: "terminations ret =
       (if game_over X (fst (act X (ale self) v))
        then dict_of (map (\<lambda>agent. (agent, True)) (agents self))
        else dict_of (map (\<lambda>(agent, life). (agent, life < 0))
               (filter (\<lambda>(agent, life). agent \<in> set (agents self))
                  (zip (possible_agents self) (allLives X (fst (act X (ale self) v)))))))"
    show "set (keys (terminations ret)) \<subseteq> set (agents self)"
      unfolding t by (auto simp: keys_dict_of)
  qed
qed

lemma rewards_keys_of_step:
  assumes "step X self action_dict = Inr (ret, self')"
  shows "set (keys (rewards ret)) \<subseteq> set (agents self)"
  using assms by (elim step_InrE) (auto simp: keys_dict_of)

lemma step_agents:
  assumes "step X self action_dict = Inr (ret, self')"
  shows "agents self' = filter (\<lambda>a. map_of (terminations ret) a = Some False) (agents self)"
  using assms by (elim step_InrE) (rule prune_Inr(1))

lemma step_lives_keys_distinct:
  assumes "distinct poss"
  shows "distinct (map fst (map (\<lambda>(agent, life). (agent, life < (0::int)))
           (filter (\<lambda>(agent, life). agent \<in> A) (zip poss lives))))"
proof -
  have "map fst (map (\<lambda>(agent, life). (agent, life < (0::int)))
           (filter (\<lambda>(agent, life). agent \<in> A) (zip poss lives)))
      = filter (\<lambda>agent. agent \<in> A) (take (length lives) poss)"
    by (simp only: keys_map_snd keys_filter_zip)
  with assms show ?thesis by simp
qed

lemma reset_InrE:
  assumes "reset X self seed = Inr ((obs_dict, info_dict), self')"
  obtains obs where
    "priv_observe X self' = Inr obs"
    "obs_dict = dict_of (map (\<lambda>agent. (agent, obs)) (possible_agents self))"
    "info_dict = dict_of (map (\<lambda>agent. (agent, []))
                   (filter (\<lambda>agent. agent \<in> set (possible_agents self)) (possible_agents self)))"
    "agents self' = possible_agents self"
    "possible_agents self' = possible_agents self"
    "frame self' = Some 0"
    "self_terminations self' = Some (dict_of (map (\<lambda>agent. (agent, False)) (possible_agents self)))"
    "max_cycles self' = max_cycles self"
  using assms
  by (auto simp: reset_def priv_seed_def Let_def split: sum.splits option.splits prod.splits)

subsection \<open>Episodes\<close>

lemma env_after_Cons:
  "env_after self ((ret, self') # trace) (Suc k) = env_after self' trace k"
  by (cases k) (simp_all add: env_after_def)

lemma episode_Inr:
  "episode X self action_dicts = Inr trace \<Longrightarrow>
     length trace = length action_dicts
     \<and> (\<forall>k < length trace. step X (env_after self trace k) (action_dicts ! k) = Inr (trace ! k))"
proof (induction action_dicts arbitrary: self trace)
  case Nil
  then show ?case by simp
next
  case (Cons action_dict later)
  from Cons.prems obtain ret self' rest where
    st: "step X self action_dict = Inr (ret, self')"
    and ep: "episode X self' later = Inr rest"
    and tr: "trace = (ret, self') # rest"
    by (auto split: sum.splits)
  from Cons.IH [OF ep] have len: "length rest = length later"
    and nth: "\<And>k. k < length rest \<Longrightarrow> step X (env_after self' rest k) (later ! k) = Inr (rest ! k)"
    by blast+
  have "step X (env_after self trace k) ((action_dict # later) ! k) = Inr (trace ! k)"
    if "k < length trace" for k
  proof (cases k)
    case 0
    with st show ?thesis by (simp add: tr env_after_def)
  next
    case (Suc j)
    with that have "j < length rest" by (simp add: tr)
    from nth [OF this] show ?thesis by (simp add: Suc tr env_after_Cons)
  qed
  with len show ?case by (simp add: tr)
qed

lemma episode_step:
  assumes "episode X self action_dicts = Inr trace" and "k < length trace"
  shows "step X (env_after self trace k) (action_dicts ! k)
           = Inr (fst (trace ! k), env_after self trace (Suc k))"
  using episode_Inr [OF assms(1)] assms(2) by (simp add: env_after_def)

lemma episode_frame:
  assumes "episode X self action_dicts = Inr trace" and "frame self = Some f" and "k \<le> length trace"
  shows "frame (env_after self trace k) = Some (f + int k)
       \<and> max_cycles (env_after self trace k) = max_cycles self"
  using assms(3)
proof (induction k)
  case 0
  show ?case by (simp add: env_after_def assms(2))
next
  case (Suc k)
  then have k: "k < length trace" and ih: "frame (env_after self trace k) = Some (f + int k)"
    "max_cycles (env_after self trace k) = max_cycles self" by simp_all
  from episode_step [OF assms(1) k] ih show ?case
    by (elim step_InrE) simp
qed

lemma episode_agents:
  assumes "episode X self action_dicts = Inr trace" and "i \<le> j" and "j \<le> length trace"
  shows "subseq (agents (env_after self trace j)) (agents (env_after self trace i))"
  using assms(2,3)
proof (induction j)
  case 0
  then show ?case by simp
next
  case (Suc j)
  show ?case
  proof (cases "i = Suc j")
    case True
    then show ?thesis by simp
  next
    case False
    with Suc.prems have le: "i \<le> j" "j \<le> length trace" and k: "j < length trace" by simp_all
    have "subseq (agents (env_after self trace (Suc j))) (agents (env_after self trace j))"
      by (simp add: step_agents [OF episode_step [OF assms(1) k]])
    with Suc.IH [OF le] show ?thesis by (metis subseq_order.trans)
  qed
qed

subsection \<open>The invariant\<close>

lemma env_inv_subset: "env_inv self \<Longrightarrow> set (agents self) \<subseteq> set (possible_agents self)"
  by (simp add: env_inv_def subseq_subset)

lemma make_agents_distinct:
  assumes "make_agents n = Inr names"
  shows "distinct names"
proof -
  let ?f = "\<lambda>k. case py_index player_names (int k) of
                     Inl e \<Rightarrow> Inl e
                   | Inr name \<Rightarrow> Inr (name @ ''_0'')"
  from assms have m: "map_err ?f [0..<nat n] = Inr names" by (simp add: make_agents_def)
  from map_err_Inr [OF m] have len: "length names = nat n"
    and nth: "\<And>i. i < nat n \<Longrightarrow> ?f i = Inr (names ! i)" by simp_all
  have dp: "distinct player_names" by (simp add: player_names_def)
  have lp: "length player_names = 4" by (simp add: player_names_def)
  have name: "i < 4 \<and> names ! i = player_names ! i @ ''_0''" if "i < nat n" for i
    using nth [OF that] by (auto simp: py_index_def lp split: sum.splits if_splits)
  have "names ! i \<noteq> names ! j" if "i < length names" "j < length names" "i \<noteq> j" for i j
  proof
    assume eq: "names ! i = names ! j"
    from that len have i: "i < nat n" and j: "j < nat n" by simp_all
    from name [OF i] name [OF j] eq have "player_names ! i = player_names ! j"
      and "i < length player_names" "j < length player_names" by (simp_all add: lp)
    with dp have "i = j" by (simp add: nth_eq_iff_index_eq)
    with that show False by simp
  qed
  then show ?thesis by (simp add: distinct_conv_nth)
qed

lemma init_inv:
  assumes "init X args = Inr self"
  shows "env_inv self" and "agents self = possible_agents self"
proof -
  from assms obtain names where n: "make_agents (arg_num_players args) = Inr names"
    and a: "agents self = names" and p: "possible_agents self = names"
    by (auto simp: init_def Let_def split: if_splits sum.splits prod.splits)
  from make_agents_distinct [OF n] a p show "env_inv self" by (simp add: env_inv_def)
  from a p show "agents self = possible_agents self" by simp
qed

lemma reset_inv:
  assumes "reset X self seed = Inr (ret, self')" and "distinct (possible_agents self)"
  shows "env_inv self'"
proof -
  obtain obs_dict info_dict where "ret = (obs_dict, info_dict)" by (cases ret)
  with assms(1) have "agents self' = possible_agents self" "possible_agents self' = possible_agents self"
    by (auto elim: reset_InrE)
  with assms(2) show ?thesis by (simp add: env_inv_def)
qed

lemma step_inv:
  assumes "step X self action_dict = Inr (ret, self')" and "env_inv self"
  shows "env_inv self'"
proof -
  have "subseq (agents self') (agents self)" by (simp add: step_agents [OF assms(1)])
  moreover from assms(1) have "possible_agents self' = possible_agents self"
    by (elim step_InrE)
  ultimately show ?thesis
    using assms(2) unfolding env_inv_def by (metis subseq_order.trans)
qed

subsection \<open>Concrete runs\<close>

lemmas demo_simps = step_def native_actions_def max_num_agents_def enumerate_eq_zip
  py_index_def prune_def dict_of_def priv_observe_def demo_X_def demo_env_def demo_ret_def
  Let_def keys_def env_inv_def

lemma demo_init:
  "init demo_X ((default_args ''pong'' 2)\<lparr>arg_mode_num := Some 19, arg_max_cycles := 2\<rparr>)
     = Inr (demo_env 0 [''first_0'', ''second_0''] None)"
  by (simp add: init_def find_rom_def rom_start_def rom_loaded_def select_mode_def make_agents_def
      player_names_def priv_seed_def default_args_def upt_rec demo_simps)

lemma demo_reset:
  "reset demo_X (demo_env 0 [''first_0'', ''second_0''] None) None
     = Inr (([(''first_0'', 0), (''second_0'', 0)], [(''first_0'', []), (''second_0'', [])]),
            demo_env 0 [''first_0'', ''second_0''] (Some 0))"
  by (simp add: reset_def demo_simps)

lemma demo_step1:
  "step demo_X (demo_env 0 [''first_0'', ''second_0''] (Some 0)) [(''first_0'', 2), (''second_0'', 5)]
     = Inr (demo_ret [(''first_0'', 1), (''second_0'', 1)] [(''first_0'', 3), (''second_0'', 12)]
              [(''first_0'', False), (''second_0'', False)]
              [(''first_0'', False), (''second_0'', False)],
            demo_env 1 [''first_0'', ''second_0''] (Some 1))"
  by (simp add: demo_simps)

lemma demo_step2:
  "step demo_X (demo_env 1 [''first_0'', ''second_0''] (Some 1)) [(''first_0'', 1), (''second_0'', 0)]
     = Inr (demo_ret [(''first_0'', 2), (''second_0'', 2)] [(''first_0'', 1), (''second_0'', 0)]
              [(''first_0'', False), (''second_0'', True)] [(''first_0'', True), (''second_0'', True)],
            demo_env 2 [''first_0''] (Some 2))"
  by (simp add: demo_simps)

lemma demo_step3:
  "step demo_X (demo_env 2 [''first_0''] (Some 2)) [(''first_0'', 1), (''second_0'', 3)]
     = Inr (demo_ret [(''first_0'', 3)] [(''first_0'', 1)]
              [(''first_0'', True)] [(''first_0'', True)],
            demo_env 3 [] (Some 3))"
  by (simp add: demo_simps)

lemma demo_step_truncated:
  "step demo_X ((demo_env 0 [''first_0'', ''second_0''] (Some 0))\<lparr>max_cycles := 1\<rparr>)
         [(''first_0'', 2), (''second_0'', 5)]
     = Inr (demo_ret [(''first_0'', 1), (''second_0'', 1)] [(''first_0'', 3), (''second_0'', 12)]
              [(''first_0'', False), (''second_0'', False)]
              [(''first_0'', True), (''second_0'', True)],
            (demo_env 1 [''first_0'', ''second_0''] (Some 1))\<lparr>max_cycles := 1\<rparr>)"
  by (simp add: demo_simps)

lemma demo_episode:
  "episode demo_X (demo_env 0 [''first_0'', ''second_0''] (Some 0))
       [[(''first_0'', 2), (''second_0'', 5)], [(''first_0'', 1), (''second_0'', 0)],
        [(''first_0'', 1), (''second_0'', 3)]]
     = Inr [(demo_ret [(''first_0'', 1), (''second_0'', 1)] [(''first_0'', 3), (''second_0'', 12)]
               [(''first_0'', False), (''second_0'', False)]
               [(''first_0'', False), (''second_0'', False)],
             demo_env 1 [''first_0'', ''second_0''] (Some 1)),
            (demo_ret [(''first_0'', 2), (''second_0'', 2)] [(''first_0'', 1), (''second_0'', 0)]
               [(''first_0'', False), (''second_0'', True)]
               [(''first_0'', True), (''second_0'', True)],
             demo_env 2 [''first_0''] (Some 2)),
            (demo_ret [(''first_0'', 3)] [(''first_0'', 1)] [(''first_0'', True)]
               [(''first_0'', True)],
             demo_env 3 [] (Some 3))]"
  by (simp only: episode.simps demo_step1 demo_step2 demo_step3 sum.case prod.case)

subsection \<open>How construction fails\<close>

text \<open>
  The only OSError of construction is the one of the ROM search (gymnasium's seeding
  raises exceptions of its own). A requested mode that the emulator does not list, and a
  number of active players other than the requested one, end construction with
  AssertionError.
\<close>

lemma find_rom_OSError:
  "find_rom X start g = Inl e \<longleftrightarrow>
     e = OSError \<and> \<not> path_exists X (start @ [g @ ''.bin''])
     \<and> \<not> path_exists X (start @ [''roms'', g @ ''.bin''])
     \<and> \<not> path_exists X (start @ [''ROM'', g, g @ ''.bin''])"
  by (auto simp: find_rom_def Let_def)

lemma priv_seed_not_OSError:
  "seeding_np_random X seed \<noteq> Inl OSError \<Longrightarrow> priv_seed X emu rom md seed \<noteq> Inl OSError"
  by (auto simp: priv_seed_def split: sum.splits)

lemma make_agents_error: "make_agents n = Inl e \<Longrightarrow> e = IndexError"
proof -
  have gen: "map_err (\<lambda>k. case py_index player_names (int k) of
                     Inl e \<Rightarrow> Inl e
                   | Inr name \<Rightarrow> Inr (name @ ''_0'')) ks = Inl e \<Longrightarrow> e = IndexError" for ks
    by (induction ks) (auto simp: py_index_def Let_def split: sum.splits if_splits)
  assume "make_agents n = Inl e"
  then show ?thesis unfolding make_agents_def by (rule gen)
qed

lemma select_mode_error: "select_mode ms md = Inl e \<Longrightarrow> e = IndexError \<or> e = AssertionError"
  by (auto simp: select_mode_def py_index_def Let_def split: option.splits if_splits)

lemma init_OSError_only_rom:
  assumes "init X args = Inl OSError"
    and "seeding_np_random X (arg_seed args) \<noteq> Inl OSError"
  shows "\<not> path_exists X (rom_start X args @ [arg_game args @ ''.bin''])
       \<and> \<not> path_exists X (rom_start X args @ [''roms'', arg_game args @ ''.bin''])
       \<and> \<not> path_exists X (rom_start X args @ [''ROM'', arg_game args, arg_game args @ ''.bin''])"
proof (cases "find_rom X (rom_start X args) (arg_game args)")
  case (Inl e)
  then show ?thesis by (simp add: find_rom_OSError)
next
  case (Inr final)
  have False
    using assms(1) Inr priv_seed_not_OSError [OF assms(2)]
    by (auto simp: init_def Let_def split: if_splits sum.splits prod.splits
          dest: make_agents_error select_mode_error)
  then show ?thesis ..
qed

lemma requested_mode_not_listed:
  assumes "find_rom X (rom_start X args) (arg_game args) = Inr final"
    and "arg_mode_num args = Some m"
    and "m \<notin> set (getAvailableModes X (rom_loaded X final) (arg_num_players args))"
  shows "init X args = Inl AssertionError"
  using assms by (simp add: init_def select_mode_def)

lemma active_players_differ:
  assumes "find_rom X (rom_start X args) (arg_game args) = Inr final"
    and "select_mode (getAvailableModes X (rom_loaded X final) (arg_num_players args))
           (arg_mode_num args) = Inr md"
    and "arg_num_players args \<noteq> numPlayersActive X (setMode X (rom_loaded X final) md)"
  shows "init X args = Inl AssertionError"
  using assms by (simp add: init_def Let_def)

section \<open>The claims\<close>

text \<open>
  Claim C1. Every call of \<^verbatim>\<open>step\<close> that returns, on an adapter whose active agents
  are among the roster and with an emulator that returned at least one reward per roster
  slot, returns five dictionaries whose keys are exactly the agents that were active when
  the call began. The active list after the call is the list before it without the agents
  whose termination flag of this call is true. So an agent terminated in this call is a key
  of this call's dictionaries, is not active afterwards, and is a key of no dictionary the
  next call returns.
\<close>

theorem step_keys:
  assumes inv: "env_inv self"
    and st: "step X self action_dict = Inr (ret, self')"
    and nat: "native_actions self action_dict = Inr v"
    and one_per_slot: "length (possible_agents self) \<le> length (snd (act X (ale self) v))"
  shows "set (keys (observations ret)) = set (agents self)
       \<and> set (keys (rewards ret)) = set (agents self)
       \<and> set (keys (terminations ret)) = set (agents self)
       \<and> set (keys (truncations ret)) = set (agents self)
       \<and> set (keys (infos ret)) = set (agents self)
       \<and> agents self' = filter (\<lambda>a. map_of (terminations ret) a \<noteq> Some True) (agents self)
       \<and> (\<forall>a action_dict' ret' self''.
             a \<in> set (agents self) \<and> map_of (terminations ret) a = Some True
               \<and> step X self' action_dict' = Inr (ret', self'') \<longrightarrow>
             a \<notin> set (agents self')
               \<and> a \<notin> set (keys (observations ret')) \<and> a \<notin> set (keys (rewards ret'))
               \<and> a \<notin> set (keys (terminations ret')) \<and> a \<notin> set (keys (truncations ret'))
               \<and> a \<notin> set (keys (infos ret')))"
proof -
  have sub: "set (agents self) \<subseteq> set (possible_agents self)" by (rule env_inv_subset [OF inv])
  have obs: "set (keys (observations ret)) = set (agents self)"
    using st by (elim step_InrE) (auto simp: keys_dict_of image_iff)
  have tru: "set (keys (truncations ret)) = set (agents self)"
    using st by (elim step_InrE) (auto simp: keys_dict_of image_iff)
  have inf: "set (keys (infos ret)) = set (agents self)"
    using st sub by (elim step_InrE) (auto simp: keys_dict_of image_iff)
  have ter: "set (keys (terminations ret)) = set (agents self)"
    by (rule terminations_keys_of_step [OF st])
  have rew: "set (keys (rewards ret)) = set (agents self)"
  proof -
    from st nat have r: "rewards ret = dict_of (filter (\<lambda>(agent, rew). agent \<in> set (agents self))
                     (zip (possible_agents self) (snd (act X (ale self) v))))"
      by (elim step_InrE) simp
    have "set (keys (rewards ret))
        = set (map fst (filter (\<lambda>(agent, rew). agent \<in> set (agents self))
                     (zip (possible_agents self) (snd (act X (ale self) v)))))"
      unfolding r by (simp add: keys_dict_of)
    also have "\<dots> = set (filter (\<lambda>agent. agent \<in> set (agents self)) (possible_agents self))"
      using one_per_slot by (simp only: keys_filter_zip take_all)
    also have "\<dots> = set (agents self)" using sub by auto
    finally show ?thesis .
  qed
  have all_flagged: "map_of (terminations ret) a \<noteq> None" if "a \<in> set (agents self)" for a
    using ter that by (simp add: keys_def map_of_eq_None_iff)
  have ag: "agents self' = filter (\<lambda>a. map_of (terminations ret) a \<noteq> Some True) (agents self)"
    unfolding step_agents [OF st]
  proof (intro filter_cong refl)
    fix a assume "a \<in> set (agents self)"
    from all_flagged [OF this] obtain t where "map_of (terminations ret) a = Some t" by blast
    then show "(map_of (terminations ret) a = Some False)
        = (map_of (terminations ret) a \<noteq> Some True)" by (cases t) simp_all
  qed
  have nxt: "a \<notin> set (agents self')
               \<and> a \<notin> set (keys (observations ret')) \<and> a \<notin> set (keys (rewards ret'))
               \<and> a \<notin> set (keys (terminations ret')) \<and> a \<notin> set (keys (truncations ret'))
               \<and> a \<notin> set (keys (infos ret'))"
    if a: "map_of (terminations ret) a = Some True"
      and st': "step X self' action_dict' = Inr (ret', self'')"
    for a action_dict' ret' self''
  proof -
    have out: "a \<notin> set (agents self')" using a by (simp add: ag)
    have "set (keys (observations ret')) \<subseteq> set (agents self')"
      using st' by (elim step_InrE) (auto simp: keys_dict_of image_iff)
    moreover have "set (keys (truncations ret')) \<subseteq> set (agents self')"
      using st' by (elim step_InrE) (auto simp: keys_dict_of image_iff)
    moreover have "set (keys (infos ret')) \<subseteq> set (agents self')"
      using st' by (elim step_InrE) (auto simp: keys_dict_of image_iff)
    moreover note rewards_keys_of_step [OF st'] terminations_keys_of_step [OF st']
    ultimately show ?thesis using out by blast
  qed
  from obs rew ter tru inf ag nxt show ?thesis by blast
qed

theorem step_keys_witness:
  "env_inv (demo_env 1 [''first_0'', ''second_0''] (Some 1))
   \<and> step demo_X (demo_env 1 [''first_0'', ''second_0''] (Some 1))
         [(''first_0'', 1), (''second_0'', 0)]
       = Inr (demo_ret [(''first_0'', 2), (''second_0'', 2)] [(''first_0'', 1), (''second_0'', 0)]
                [(''first_0'', False), (''second_0'', True)]
                [(''first_0'', True), (''second_0'', True)],
              demo_env 2 [''first_0''] (Some 2))
   \<and> native_actions (demo_env 1 [''first_0'', ''second_0''] (Some 1))
         [(''first_0'', 1), (''second_0'', 0)] = Inr [1, 0]
   \<and> length (possible_agents (demo_env 1 [''first_0'', ''second_0''] (Some 1)))
       \<le> length (snd (act demo_X (ale (demo_env 1 [''first_0'', ''second_0''] (Some 1))) [1, 0]))
   \<and> set (keys [(''first_0'', 2::nat), (''second_0'', 2)]) = {''first_0'', ''second_0''}
   \<and> set (keys [(''first_0'', 1::int), (''second_0'', 0)]) = {''first_0'', ''second_0''}
   \<and> set (keys [(''first_0'', False), (''second_0'', True)]) = {''first_0'', ''second_0''}
   \<and> agents (demo_env 2 [''first_0''] (Some 2)) = [''first_0'']
   \<and> step demo_X (demo_env 2 [''first_0''] (Some 2)) [(''first_0'', 1), (''second_0'', 3)]
       = Inr (demo_ret [(''first_0'', 3)] [(''first_0'', 1)] [(''first_0'', True)]
                [(''first_0'', True)],
              demo_env 3 [] (Some 3))
   \<and> ''second_0'' \<notin> set (keys [(''first_0'', 1::int)])"
proof -
  let ?E1 = "demo_env 1 [''first_0'', ''second_0''] (Some 1)"
  let ?A2 = "[(''first_0'', 1), (''second_0'', 0)]"
  let ?R2 = "demo_ret [(''first_0'', 2), (''second_0'', 2)] [(''first_0'', 1), (''second_0'', 0)]
                [(''first_0'', False), (''second_0'', True)]
                [(''first_0'', True), (''second_0'', True)]"
  let ?E2 = "demo_env 2 [''first_0''] (Some 2)"
  let ?R3 = "demo_ret [(''first_0'', 3)] [(''first_0'', 1)] [(''first_0'', True)]
                [(''first_0'', True)]"
  have h1: "env_inv ?E1" by (simp add: env_inv_def demo_env_def)
  have h2: "step demo_X ?E1 ?A2 = Inr (?R2, ?E2)" by (rule demo_step2)
  have h3: "native_actions ?E1 ?A2 = Inr [1, 0]" by (simp add: demo_simps)
  have h4: "length (possible_agents ?E1) \<le> length (snd (act demo_X (ale ?E1) [1, 0]))"
    by (simp add: demo_simps)
  note c = step_keys [OF h1 h2 h3 h4]
  have ag: "agents ?E1 = [''first_0'', ''second_0'']" by (simp add: demo_env_def)
  have o: "observations ?R2 = [(''first_0'', 2), (''second_0'', 2)]"
    and r: "rewards ?R2 = [(''first_0'', 1), (''second_0'', 0)]"
    and t: "terminations ?R2 = [(''first_0'', False), (''second_0'', True)]"
    and r3: "rewards ?R3 = [(''first_0'', 1)]"
    by (simp_all add: demo_ret_def)
  have flag: "''second_0'' \<in> set (agents ?E1) \<and> map_of (terminations ?R2) ''second_0'' = Some True
      \<and> step demo_X ?E2 [(''first_0'', 1), (''second_0'', 3)] = Inr (?R3, demo_env 3 [] (Some 3))"
    using demo_step3 by (simp add: demo_env_def t)
  from c have k1: "set (keys (observations ?R2)) = set (agents ?E1)"
    and k2: "set (keys (rewards ?R2)) = set (agents ?E1)"
    and k3: "set (keys (terminations ?R2)) = set (agents ?E1)"
    and k4: "agents ?E2 = filter (\<lambda>a. map_of (terminations ?R2) a \<noteq> Some True) (agents ?E1)"
    by blast+
  from c flag have k5: "''second_0'' \<notin> set (keys (rewards ?R3))" by blast
  from k4 have k4': "agents ?E2 = [''first_0'']" by (simp add: demo_env_def t)
  show ?thesis
    using h1 h2 h3 h4 k1 k2 k3 k4' k5 demo_step3 unfolding o r t r3 ag by simp
qed

text \<open>
  Claim C2. In every call of \<^verbatim>\<open>step\<close> that returns: when the emulator, after it
  acted, reports the game over, the termination flag of every active agent is true;
  otherwise an active agent's slot has a life count, and the agent's flag is true exactly
  when that count is negative; an agent that is not active has no entry in the returned
  terminations. The slot of an agent is its position in the roster, and the emulator after
  the call is the one that acted (rendering does not change it).
\<close>

theorem step_terminations:
  assumes inv: "env_inv self"
    and st: "step X self action_dict = Inr (ret, self')"
  shows "(game_over X (ale self') \<longrightarrow>
            (\<forall>a \<in> set (agents self). map_of (terminations ret) a = Some True))
       \<and> (\<not> game_over X (ale self') \<longrightarrow>
            (\<forall>i < length (possible_agents self). possible_agents self ! i \<in> set (agents self) \<longrightarrow>
               i < length (allLives X (ale self'))
               \<and> map_of (terminations ret) (possible_agents self ! i)
                   = Some (allLives X (ale self') ! i < 0)))
       \<and> (\<forall>a. a \<notin> set (agents self) \<longrightarrow> map_of (terminations ret) a = None)"
proof -
  from inv have dist: "distinct (possible_agents self)" by (simp add: env_inv_def)
  from st obtain v where
    t: "terminations ret =
       (if game_over X (fst (act X (ale self) v))
        then dict_of (map (\<lambda>agent. (agent, True)) (agents self))
        else dict_of (map (\<lambda>(agent, life). (agent, life < 0))
               (filter (\<lambda>(agent, life). agent \<in> set (agents self))
                  (zip (possible_agents self) (allLives X (fst (act X (ale self) v)))))))"
    and a: "ale self' = fst (act X (ale self) v)"
    by (elim step_InrE) blast
  have over: "map_of (terminations ret) b = Some True"
    if "game_over X (ale self')" "b \<in> set (agents self)" for b
    using that t a by (simp add: map_of_const)
  have absent: "map_of (terminations ret) b = None" if "b \<notin> set (agents self)" for b
    using that terminations_keys_of_step [OF st] by (simp add: keys_def map_of_eq_None_iff)
  have lives: "i < length (allLives X (ale self'))
        \<and> map_of (terminations ret) (possible_agents self ! i)
            = Some (allLives X (ale self') ! i < 0)"
    if no: "\<not> game_over X (ale self')" and i: "i < length (possible_agents self)"
      and act: "possible_agents self ! i \<in> set (agents self)" for i
  proof -
    let ?poss = "possible_agents self" and ?lives = "allLives X (ale self')"
    let ?items = "map (\<lambda>(agent, life). (agent, life < 0))
               (filter (\<lambda>(agent, life). agent \<in> set (agents self)) (zip ?poss ?lives))"
    have d: "distinct (map fst ?items)" by (rule step_lives_keys_distinct [OF dist])
    from no t a have "terminations ret = dict_of ?items" by simp
    then have t': "terminations ret = ?items" by (simp only: dict_of_distinct [OF d])
    have "?poss ! i \<in> set (keys (terminations ret))"
      using act terminations_keys_of_step [OF st] by simp
    then have "?poss ! i \<in> set (filter (\<lambda>agent. agent \<in> set (agents self)) (take (length ?lives) ?poss))"
      unfolding t' keys_def by (simp only: keys_map_snd keys_filter_zip)
    then have "?poss ! i \<in> set (take (length ?lives) ?poss)" by simp
    then obtain j where j: "j < length ?lives" "j < length ?poss" "?poss ! j = ?poss ! i"
      by (auto simp: in_set_conv_nth)
    with dist i have "j = i" by (simp add: nth_eq_iff_index_eq)
    with j have il: "i < length ?lives" by simp
    with i have "(?poss ! i, ?lives ! i) \<in> set (zip ?poss ?lives)"
      by (auto simp: in_set_zip)
    with act have "(?poss ! i, ?lives ! i < 0) \<in> set ?items" by force
    with d have "map_of ?items (?poss ! i) = Some (?lives ! i < 0)" by simp
    with il show ?thesis by (simp add: t')
  qed
  from over absent lives show ?thesis by blast
qed

theorem step_terminations_witness:
  "env_inv (demo_env 1 [''first_0'', ''second_0''] (Some 1))
   \<and> step demo_X (demo_env 1 [''first_0'', ''second_0''] (Some 1))
         [(''first_0'', 1), (''second_0'', 0)]
       = Inr (demo_ret [(''first_0'', 2), (''second_0'', 2)] [(''first_0'', 1), (''second_0'', 0)]
                [(''first_0'', False), (''second_0'', True)]
                [(''first_0'', True), (''second_0'', True)],
              demo_env 2 [''first_0''] (Some 2))
   \<and> \<not> game_over demo_X (ale (demo_env 2 [''first_0''] (Some 2)))
   \<and> allLives demo_X (ale (demo_env 2 [''first_0''] (Some 2))) = [0, - 1]
   \<and> map_of [(''first_0'', False), (''second_0'', True)] ''first_0'' = Some False
   \<and> map_of [(''first_0'', False), (''second_0'', True)] ''second_0'' = Some True
   \<and> env_inv (demo_env 2 [''first_0''] (Some 2))
   \<and> step demo_X (demo_env 2 [''first_0''] (Some 2)) [(''first_0'', 1), (''second_0'', 3)]
       = Inr (demo_ret [(''first_0'', 3)] [(''first_0'', 1)] [(''first_0'', True)]
                [(''first_0'', True)],
              demo_env 3 [] (Some 3))
   \<and> game_over demo_X (ale (demo_env 3 [] (Some 3)))
   \<and> map_of [(''first_0'', True)] ''first_0'' = Some True
   \<and> map_of [(''first_0'', True)] ''second_0'' = None"
proof -
  let ?E1 = "demo_env 1 [''first_0'', ''second_0''] (Some 1)"
  let ?R2 = "demo_ret [(''first_0'', 2), (''second_0'', 2)] [(''first_0'', 1), (''second_0'', 0)]
                [(''first_0'', False), (''second_0'', True)]
                [(''first_0'', True), (''second_0'', True)]"
  let ?E2 = "demo_env 2 [''first_0''] (Some 2)"
  let ?R3 = "demo_ret [(''first_0'', 3)] [(''first_0'', 1)] [(''first_0'', True)]
                [(''first_0'', True)]"
  let ?E3 = "demo_env 3 [] (Some 3)"
  have h1: "env_inv ?E1" by (simp add: env_inv_def demo_env_def)
  have h2: "env_inv ?E2" by (simp add: env_inv_def demo_env_def)
  have g2: "\<not> game_over demo_X (ale ?E2)" and l2: "allLives demo_X (ale ?E2) = [0, - 1]"
    and g3: "game_over demo_X (ale ?E3)"
    by (simp_all add: demo_X_def demo_env_def)
  have t2: "terminations ?R2 = [(''first_0'', False), (''second_0'', True)]"
    and t3: "terminations ?R3 = [(''first_0'', True)]"
    by (simp_all add: demo_ret_def)
  have p1: "possible_agents ?E1 = [''first_0'', ''second_0'']"
    and a1: "agents ?E1 = [''first_0'', ''second_0'']"
    and a2: "agents ?E2 = [''first_0'']"
    by (simp_all add: demo_env_def)
  note c2 = step_terminations [OF h1 demo_step2]
  note c3 = step_terminations [OF h2 demo_step3]
  from c2 g2 have "\<forall>i < length (possible_agents ?E1). possible_agents ?E1 ! i \<in> set (agents ?E1) \<longrightarrow>
               i < length (allLives demo_X (ale ?E2))
               \<and> map_of (terminations ?R2) (possible_agents ?E1 ! i)
                   = Some (allLives demo_X (ale ?E2) ! i < 0)"
    by blast
  then have "\<forall>i < 2. map_of [(''first_0'', False), (''second_0'', True)] ([''first_0'', ''second_0''] ! i)
                   = Some ([0, - 1 :: int] ! i < 0)"
    unfolding p1 a1 l2 t2 by (simp add: nth_Cons split: nat.splits)
  then have "map_of [(''first_0'', False), (''second_0'', True)] ([''first_0'', ''second_0''] ! 0)
                   = Some ([0, - 1 :: int] ! 0 < 0)"
    and "map_of [(''first_0'', False), (''second_0'', True)] ([''first_0'', ''second_0''] ! 1)
                   = Some ([0, - 1 :: int] ! 1 < 0)"
    by simp_all
  then have k1: "map_of [(''first_0'', False), (''second_0'', True)] ''first_0'' = Some False"
    and k2: "map_of [(''first_0'', False), (''second_0'', True)] ''second_0'' = Some True"
    by simp_all
  from c3 g3 have "\<forall>a \<in> set (agents ?E2). map_of (terminations ?R3) a = Some True"
    and "\<forall>a. a \<notin> set (agents ?E2) \<longrightarrow> map_of (terminations ?R3) a = None"
    by blast+
  then have k3: "map_of [(''first_0'', True)] ''first_0'' = Some True"
    and k4: "map_of [(''first_0'', True)] ''second_0'' = None"
    unfolding a2 t3 by simp_all
  from h1 h2 demo_step2 demo_step3 g2 l2 g3 k1 k2 k3 k4 show ?thesis by blast
qed

text \<open>
  Claim C3. In an episode that starts with a \<^verbatim>\<open>reset\<close>, the call of \<^verbatim>\<open>step\<close>
  number \<open>k + 1\<close> (the trace counts from \<open>0\<close>) returns truncations that hold, for
  every agent active when that call began and for no other, the flag
  \<open>max_cycles \<le> k + 1\<close>: false at the steps \<open>1\<close> to \<open>N - 1\<close> and true at step \<open>N\<close>
  (and after it) when \<open>max_cycles = N\<close>. The frame counter is \<open>0\<close> after the reset and
  grows by one in each call, before the comparison.
\<close>

theorem truncation_at_max_cycles:
  assumes rs: "reset X self seed = Inr (first, self0)"
    and ep: "episode X self0 action_dicts = Inr trace"
    and k: "k < length trace"
  shows "map_of (truncations (fst (trace ! k))) a
           = (if a \<in> set (agents (env_after self0 trace k))
              then Some (max_cycles self \<le> int k + 1) else None)"
proof -
  obtain obs_dict info_dict where "first = (obs_dict, info_dict)" by (cases first)
  with rs have f0: "frame self0 = Some 0" and m0: "max_cycles self0 = max_cycles self"
    by (auto elim: reset_InrE)
  from k have "k \<le> length trace" by simp
  from episode_frame [OF ep f0 this] m0
  have fk: "frame (env_after self0 trace k) = Some (int k)"
    and mk: "max_cycles (env_after self0 trace k) = max_cycles self" by simp_all
  from episode_step [OF ep k] fk mk show ?thesis
    by (elim step_InrE) (simp add: map_of_const)
qed

theorem truncation_at_max_cycles_witness:
  "reset demo_X (demo_env 0 [''first_0'', ''second_0''] None) None
     = Inr (([(''first_0'', 0), (''second_0'', 0)], [(''first_0'', []), (''second_0'', [])]),
            demo_env 0 [''first_0'', ''second_0''] (Some 0))
   \<and> episode demo_X (demo_env 0 [''first_0'', ''second_0''] (Some 0))
       [[(''first_0'', 2), (''second_0'', 5)], [(''first_0'', 1), (''second_0'', 0)],
        [(''first_0'', 1), (''second_0'', 3)]]
     = Inr [(demo_ret [(''first_0'', 1), (''second_0'', 1)] [(''first_0'', 3), (''second_0'', 12)]
               [(''first_0'', False), (''second_0'', False)]
               [(''first_0'', False), (''second_0'', False)],
             demo_env 1 [''first_0'', ''second_0''] (Some 1)),
            (demo_ret [(''first_0'', 2), (''second_0'', 2)] [(''first_0'', 1), (''second_0'', 0)]
               [(''first_0'', False), (''second_0'', True)]
               [(''first_0'', True), (''second_0'', True)],
             demo_env 2 [''first_0''] (Some 2)),
            (demo_ret [(''first_0'', 3)] [(''first_0'', 1)] [(''first_0'', True)]
               [(''first_0'', True)],
             demo_env 3 [] (Some 3))]
   \<and> max_cycles (demo_env 0 [''first_0'', ''second_0''] None) = 2
   \<and> map_of [(''first_0'', False), (''second_0'', False)] ''second_0'' = Some False
   \<and> map_of [(''first_0'', True), (''second_0'', True)] ''second_0'' = Some True
   \<and> map_of [(''first_0'', True)] ''second_0'' = None"
proof -
  let ?I = "demo_env 0 [''first_0'', ''second_0''] None"
  let ?E0 = "demo_env 0 [''first_0'', ''second_0''] (Some 0)"
  let ?T = "[(demo_ret [(''first_0'', 1), (''second_0'', 1)] [(''first_0'', 3), (''second_0'', 12)]
               [(''first_0'', False), (''second_0'', False)]
               [(''first_0'', False), (''second_0'', False)],
             demo_env 1 [''first_0'', ''second_0''] (Some 1)),
            (demo_ret [(''first_0'', 2), (''second_0'', 2)] [(''first_0'', 1), (''second_0'', 0)]
               [(''first_0'', False), (''second_0'', True)]
               [(''first_0'', True), (''second_0'', True)],
             demo_env 2 [''first_0''] (Some 2)),
            (demo_ret [(''first_0'', 3)] [(''first_0'', 1)] [(''first_0'', True)]
               [(''first_0'', True)],
             demo_env 3 [] (Some 3))]"
  have m: "max_cycles ?I = 2" by (simp add: demo_env_def)
  have k0: "0 < length ?T" and k1: "1 < length ?T" and k2: "2 < length ?T" by simp_all
  note c0 = truncation_at_max_cycles [OF demo_reset demo_episode k0, of "''second_0''"]
  note c1 = truncation_at_max_cycles [OF demo_reset demo_episode k1, of "''second_0''"]
  note c2 = truncation_at_max_cycles [OF demo_reset demo_episode k2, of "''second_0''"]
  from c0 have r0: "map_of [(''first_0'', False), (''second_0'', False)] ''second_0'' = Some False"
    by (simp add: env_after_def demo_env_def demo_ret_def)
  from c1 have r1: "map_of [(''first_0'', True), (''second_0'', True)] ''second_0'' = Some True"
    by (simp add: env_after_def demo_env_def demo_ret_def)
  from c2 have r2: "map_of [(''first_0'', True)] ''second_0'' = None"
    by (simp add: env_after_def demo_env_def demo_ret_def)
  from demo_reset demo_episode m r0 r1 r2 show ?thesis by blast
qed

text \<open>
  Claim C4. Within an episode the active list only shrinks: the list after \<open>j\<close> steps is a
  subsequence of the list after \<open>i \<le> j\<close> steps (for \<open>j = i + 1\<close>: each call leaves a
  subsequence of what it found). An agent that is not active after \<open>i\<close> steps is not active
  after \<open>j\<close> steps, and is a key neither of the rewards nor of the terminations that the
  next call (number \<open>j + 1\<close>) returns.
\<close>

theorem active_agents_shrink:
  assumes ep: "episode X self0 action_dicts = Inr trace"
    and ij: "i \<le> j" and j: "j \<le> length trace"
  shows "subseq (agents (env_after self0 trace j)) (agents (env_after self0 trace i))
       \<and> (\<forall>a. a \<notin> set (agents (env_after self0 trace i)) \<longrightarrow>
             a \<notin> set (agents (env_after self0 trace j))
             \<and> (j < length trace \<longrightarrow>
                  a \<notin> set (keys (rewards (fst (trace ! j))))
                  \<and> a \<notin> set (keys (terminations (fst (trace ! j))))))"
proof -
  have sub: "subseq (agents (env_after self0 trace j)) (agents (env_after self0 trace i))"
    by (rule episode_agents [OF ep ij j])
  then have incl: "set (agents (env_after self0 trace j)) \<subseteq> set (agents (env_after self0 trace i))"
    by (rule subseq_subset)
  have "a \<notin> set (keys (rewards (fst (trace ! j)))) \<and> a \<notin> set (keys (terminations (fst (trace ! j))))"
    if a: "a \<notin> set (agents (env_after self0 trace i))" and lt: "j < length trace" for a
  proof -
    note st = episode_step [OF ep lt]
    from a incl have "a \<notin> set (agents (env_after self0 trace j))" by blast
    with rewards_keys_of_step [OF st] terminations_keys_of_step [OF st] show ?thesis by blast
  qed
  with sub incl show ?thesis by blast
qed

theorem active_agents_shrink_witness:
  "episode demo_X (demo_env 0 [''first_0'', ''second_0''] (Some 0))
       [[(''first_0'', 2), (''second_0'', 5)], [(''first_0'', 1), (''second_0'', 0)],
        [(''first_0'', 1), (''second_0'', 3)]]
     = Inr [(demo_ret [(''first_0'', 1), (''second_0'', 1)] [(''first_0'', 3), (''second_0'', 12)]
               [(''first_0'', False), (''second_0'', False)]
               [(''first_0'', False), (''second_0'', False)],
             demo_env 1 [''first_0'', ''second_0''] (Some 1)),
            (demo_ret [(''first_0'', 2), (''second_0'', 2)] [(''first_0'', 1), (''second_0'', 0)]
               [(''first_0'', False), (''second_0'', True)]
               [(''first_0'', True), (''second_0'', True)],
             demo_env 2 [''first_0''] (Some 2)),
            (demo_ret [(''first_0'', 3)] [(''first_0'', 1)] [(''first_0'', True)]
               [(''first_0'', True)],
             demo_env 3 [] (Some 3))]
   \<and> subseq [''first_0''] [''first_0'', ''second_0'']
   \<and> ''second_0'' \<notin> set [''first_0'']
   \<and> ''second_0'' \<notin> set (keys [(''first_0'', 1 :: int)])
   \<and> ''second_0'' \<notin> set (keys [(''first_0'', True)])"
proof -
  let ?E0 = "demo_env 0 [''first_0'', ''second_0''] (Some 0)"
  let ?T = "[(demo_ret [(''first_0'', 1), (''second_0'', 1)] [(''first_0'', 3), (''second_0'', 12)]
               [(''first_0'', False), (''second_0'', False)]
               [(''first_0'', False), (''second_0'', False)],
             demo_env 1 [''first_0'', ''second_0''] (Some 1)),
            (demo_ret [(''first_0'', 2), (''second_0'', 2)] [(''first_0'', 1), (''second_0'', 0)]
               [(''first_0'', False), (''second_0'', True)]
               [(''first_0'', True), (''second_0'', True)],
             demo_env 2 [''first_0''] (Some 2)),
            (demo_ret [(''first_0'', 3)] [(''first_0'', 1)] [(''first_0'', True)]
               [(''first_0'', True)],
             demo_env 3 [] (Some 3))]"
  have a: "(0::nat) \<le> 2" "(2::nat) \<le> length ?T" and b: "(2::nat) \<le> 2" by simp_all
  note c = active_agents_shrink [OF demo_episode a]
  note d = active_agents_shrink [OF demo_episode b a(2)]
  have e0: "agents (env_after ?E0 ?T 0) = [''first_0'', ''second_0'']"
    and e2: "agents (env_after ?E0 ?T 2) = [''first_0'']"
    and r2: "rewards (fst (?T ! 2)) = [(''first_0'', 1)]"
    and t2: "terminations (fst (?T ! 2)) = [(''first_0'', True)]"
    by (simp_all add: env_after_def demo_env_def demo_ret_def)
  from c have s: "subseq [''first_0''] [''first_0'', ''second_0'']" unfolding e0 e2 by blast
  have out: "''second_0'' \<notin> set [''first_0'']" by simp
  have lt: "(2::nat) < length ?T" by simp
  from d out lt have "''second_0'' \<notin> set (keys (rewards (fst (?T ! 2))))
      \<and> ''second_0'' \<notin> set (keys (terminations (fst (?T ! 2))))"
    unfolding e2 by blast
  then have k: "''second_0'' \<notin> set (keys [(''first_0'', 1 :: int)])"
      "''second_0'' \<notin> set (keys [(''first_0'', True)])"
    unfolding r2 t2 by blast+
  from demo_episode s out k show ?thesis by blast
qed

text \<open>
  Claim C5. A call of \<^verbatim>\<open>reset\<close> on an adapter with one of the three observation
  kinds, whose seeding succeeds, returns. Afterwards the active list is the roster, the
  frame counter is \<open>0\<close> and \<^verbatim>\<open>self.terminations\<close> maps every agent of the roster to
  false. The returned observations hold each active agent once, all with the one
  observation of the emulator after the reset; the returned infos hold each active agent
  once, with an empty dictionary.
\<close>

theorem reset_restores:
  assumes valid: "obs_type self \<in> {''ram'', ''rgb_image'', ''grayscale_image''}"
    and seeded: "seeding_np_random X seed = Inr (rng, s)"
  shows "\<exists>obs_dict info_dict self' obs flags.
           reset X self seed = Inr ((obs_dict, info_dict), self')
           \<and> agents self' = possible_agents self'
           \<and> possible_agents self' = possible_agents self
           \<and> frame self' = Some 0
           \<and> self_terminations self' = Some flags
           \<and> (\<forall>a. map_of flags a = (if a \<in> set (possible_agents self) then Some False else None))
           \<and> priv_observe X self' = Inr obs
           \<and> distinct (keys obs_dict)
           \<and> (\<forall>a. map_of obs_dict a = (if a \<in> set (agents self') then Some obs else None))
           \<and> distinct (keys info_dict)
           \<and> (\<forall>a. map_of info_dict a = (if a \<in> set (agents self') then Some [] else None))"
proof -
  from valid seeded obtain ret self' where r: "reset X self seed = Inr (ret, self')"
    by (cases seed) (auto simp: reset_def priv_seed_def priv_observe_def Let_def)
  obtain obs_dict info_dict where ret: "ret = (obs_dict, info_dict)" by (cases ret)
  from r [unfolded ret] show ?thesis
  proof (rule reset_InrE)
    fix obs
    assume "priv_observe X self' = Inr obs"
      "obs_dict = dict_of (map (\<lambda>agent. (agent, obs)) (possible_agents self))"
      "info_dict = dict_of (map (\<lambda>agent. (agent, []))
                   (filter (\<lambda>agent. agent \<in> set (possible_agents self)) (possible_agents self)))"
      "agents self' = possible_agents self"
      "possible_agents self' = possible_agents self"
      "frame self' = Some 0"
      "self_terminations self' = Some (dict_of (map (\<lambda>agent. (agent, False)) (possible_agents self)))"
    with r ret show ?thesis
      by (intro exI [of _ obs_dict] exI [of _ info_dict] exI [of _ self'] exI [of _ obs]
            exI [of _ "dict_of (map (\<lambda>agent. (agent, False)) (possible_agents self))"])
         (simp add: map_of_const distinct_keys_dict_of)
  qed
qed

theorem reset_restores_witness:
  "obs_type (demo_env 2 [''first_0''] (Some 2)) \<in> {''ram'', ''rgb_image'', ''grayscale_image''}
   \<and> seeding_np_random demo_X (Some 7) = Inr ((), 7)
   \<and> reset demo_X (demo_env 2 [''first_0''] (Some 2)) (Some 7)
       = Inr (([(''first_0'', 0), (''second_0'', 0)], [(''first_0'', []), (''second_0'', [])]),
              demo_env 0 [''first_0'', ''second_0''] (Some 0))
   \<and> agents (demo_env 0 [''first_0'', ''second_0''] (Some 0))
       = possible_agents (demo_env 2 [''first_0''] (Some 2))
   \<and> frame (demo_env 0 [''first_0'', ''second_0''] (Some 0)) = Some 0"
proof -
  let ?E2 = "demo_env 2 [''first_0''] (Some 2)"
  let ?E0 = "demo_env 0 [''first_0'', ''second_0''] (Some 0)"
  have h1: "obs_type ?E2 \<in> {''ram'', ''rgb_image'', ''grayscale_image''}"
    by (simp add: demo_env_def)
  have h2: "seeding_np_random demo_X (Some 7) = Inr ((), 7)" by (simp add: demo_X_def)
  have r: "reset demo_X ?E2 (Some 7)
       = Inr (([(''first_0'', 0), (''second_0'', 0)], [(''first_0'', []), (''second_0'', [])]), ?E0)"
    by (simp add: reset_def priv_seed_def demo_simps)
  from reset_restores [OF h1 h2] obtain obs_dict info_dict self' where
    r': "reset demo_X ?E2 (Some 7) = Inr ((obs_dict, info_dict), self')"
    and ag: "agents self' = possible_agents self'" "possible_agents self' = possible_agents ?E2"
    and fr: "frame self' = Some 0"
    by blast
  from r r' have "self' = ?E0" by simp
  with ag fr have "agents ?E0 = possible_agents ?E2" "frame ?E0 = Some 0" by simp_all
  with h1 h2 r show ?thesis by blast
qed

text \<open>
  Claim C6. The vector that a call of \<^verbatim>\<open>step\<close> hands to the emulator has one slot per
  agent of the roster (the length is that of \<^verbatim>\<open>max_num_agents\<close>, modelled from the
  spec). Slot \<open>i\<close> holds the entry of the action-mapping table at the logical index of the
  roster's agent \<open>i\<close>: the action supplied for it in the dictionary, and \<open>0\<close> when the
  dictionary has none, whether the agent is active or not. The table is indexed as numpy
  does; for a logical index within \<open>0 ..< K\<close> that is the table's entry at that position.
  The emulator after a returning call is the one that acted on this vector.
\<close>

theorem native_action_vector:
  assumes nat: "native_actions self action_dict = Inr v"
  shows "length v = length (possible_agents self)
       \<and> (\<forall>i < length (possible_agents self).
             py_index (action_mapping self)
               (case map_of action_dict (possible_agents self ! i) of None \<Rightarrow> 0 | Some a \<Rightarrow> a)
             = Inr (v ! i))
       \<and> (\<forall>i < length (possible_agents self).
             (case map_of action_dict (possible_agents self ! i) of
                None \<Rightarrow> 0 < length (action_mapping self) \<and> v ! i = action_mapping self ! 0
              | Some a \<Rightarrow>
                  (0 \<le> a \<and> a < int (length (action_mapping self)) \<longrightarrow>
                     v ! i = action_mapping self ! nat a)))
       \<and> (\<forall>ret self'. step X self action_dict = Inr (ret, self') \<longrightarrow>
             ale self' = fst (act X (ale self) v))"
proof -
  let ?poss = "possible_agents self"
  let ?logical = "\<lambda>i. case map_of action_dict (?poss ! i) of None \<Rightarrow> 0 | Some a \<Rightarrow> a"
  from nat obtain actions where
    fill: "fill_actions action_dict (enumerate 0 ?poss) (replicate (length ?poss) 0) = Inr actions"
    and tab: "map_err (py_index (action_mapping self)) actions = Inr v"
    by (auto simp: native_actions_def max_num_agents_def split: sum.splits)
  from fill_actions_Inr [OF fill] have la: "length actions = length ?poss"
    and na: "\<And>j. j < length ?poss \<Longrightarrow> actions ! j = ?logical j"
    by (simp_all split: option.splits)
  from map_err_Inr [OF tab] la have lv: "length v = length ?poss"
    and nv: "\<And>i. i < length ?poss \<Longrightarrow> py_index (action_mapping self) (actions ! i) = Inr (v ! i)"
    by simp_all
  have idx: "py_index (action_mapping self) (?logical i) = Inr (v ! i)"
    if "i < length ?poss" for i
    using nv [OF that] na [OF that] by simp
  have direct: "(case map_of action_dict (?poss ! i) of
                None \<Rightarrow> 0 < length (action_mapping self) \<and> v ! i = action_mapping self ! 0
              | Some a \<Rightarrow>
                  (0 \<le> a \<and> a < int (length (action_mapping self)) \<longrightarrow>
                     v ! i = action_mapping self ! nat a))"
    if "i < length ?poss" for i
    using idx [OF that]
    by (auto simp: py_index_def Let_def split: option.splits if_splits)
  have emu: "ale self' = fst (act X (ale self) v)"
    if "step X self action_dict = Inr (ret, self')" for ret self'
    using that nat by (elim step_InrE) simp
  from lv idx direct emu show ?thesis by blast
qed

theorem native_action_vector_witness:
  "native_actions (demo_env 2 [''first_0''] (Some 2)) [(''first_0'', 4)] = Inr [11, 0]
   \<and> length [11, 0 :: int] = length (possible_agents (demo_env 2 [''first_0''] (Some 2)))
   \<and> map_of [(''first_0'', 4 :: int)] (possible_agents (demo_env 2 [''first_0''] (Some 2)) ! 0) = Some 4
   \<and> [11, 0] ! 0 = action_mapping (demo_env 2 [''first_0''] (Some 2)) ! nat 4
   \<and> map_of [(''first_0'', 4 :: int)] (possible_agents (demo_env 2 [''first_0''] (Some 2)) ! 1) = None
   \<and> [11, 0] ! 1 = action_mapping (demo_env 2 [''first_0''] (Some 2)) ! 0
   \<and> step demo_X (demo_env 2 [''first_0''] (Some 2)) [(''first_0'', 4)]
       = Inr (demo_ret [(''first_0'', 3)] [(''first_0'', 11)] [(''first_0'', True)]
                [(''first_0'', True)],
              demo_env 3 [] (Some 3))
   \<and> ale (demo_env 3 [] (Some 3))
       = fst (act demo_X (ale (demo_env 2 [''first_0''] (Some 2))) [11, 0])"
proof -
  let ?E2 = "demo_env 2 [''first_0''] (Some 2)"
  let ?A = "[(''first_0'', 4 :: int)]"
  let ?R = "demo_ret [(''first_0'', 3)] [(''first_0'', 11)] [(''first_0'', True)] [(''first_0'', True)]"
  have h: "native_actions ?E2 ?A = Inr [11, 0]" by (simp add: demo_simps)
  have st: "step demo_X ?E2 ?A = Inr (?R, demo_env 3 [] (Some 3))" by (simp add: demo_simps)
  have p: "possible_agents ?E2 = [''first_0'', ''second_0'']"
    and t: "action_mapping ?E2 = [0, 1, 3, 4, 11, 12]"
    by (simp_all add: demo_env_def)
  have m0: "map_of ?A (possible_agents ?E2 ! 0) = Some 4"
    and m1: "map_of ?A (possible_agents ?E2 ! 1) = None"
    by (simp_all add: p)
  have i0: "0 < length (possible_agents ?E2)" and i1: "1 < length (possible_agents ?E2)"
    by (simp_all add: p)
  note c = native_action_vector [OF h, of demo_X]
  from c have len: "length [11, 0 :: int] = length (possible_agents ?E2)" by blast
  from c i0 have "case map_of ?A (possible_agents ?E2 ! 0) of
                None \<Rightarrow> 0 < length (action_mapping ?E2) \<and> [11, 0] ! 0 = action_mapping ?E2 ! 0
              | Some a \<Rightarrow>
                  (0 \<le> a \<and> a < int (length (action_mapping ?E2)) \<longrightarrow>
                     [11, 0] ! 0 = action_mapping ?E2 ! nat a)"
    by blast
  then have v0: "[11, 0] ! 0 = action_mapping ?E2 ! nat 4" unfolding m0 by (simp add: t)
  from c i1 have "case map_of ?A (possible_agents ?E2 ! 1) of
                None \<Rightarrow> 0 < length (action_mapping ?E2) \<and> [11, 0] ! 1 = action_mapping ?E2 ! 0
              | Some a \<Rightarrow>
                  (0 \<le> a \<and> a < int (length (action_mapping ?E2)) \<longrightarrow>
                     [11, 0] ! 1 = action_mapping ?E2 ! nat a)"
    by blast
  then have v1: "[11, 0] ! 1 = action_mapping ?E2 ! 0" unfolding m1 by simp
  from c st have emu: "ale (demo_env 3 [] (Some 3)) = fst (act demo_X (ale ?E2) [11, 0])"
    by blast
  from h len m0 v0 m1 v1 st emu show ?thesis by blast
qed



text \<open>
  Claim C8. Construction is to fail with the configuration error, AssertionError in the
  code, when the player count is not supported or a requested mode is not listed
  (\<open>requested_mode_not_listed\<close> and \<open>active_players_differ\<close> are the two assertions).
  The code misses one case. When no mode is requested and the emulator lists no mode for
  the requested player count, \<^verbatim>\<open>all_modes[0]\<close> (line 134) raises IndexError before
  either assertion is reached: construction fails, but not with AssertionError.
\<close>

theorem no_mode_listed_raises_IndexError:
  assumes valid: "arg_obs_type args \<in> {''ram'', ''rgb_image'', ''grayscale_image''}"
    and rom: "find_rom X (rom_start X args) (arg_game args) = Inr final"
    and default_mode: "arg_mode_num args = None"
    and unsupported: "getAvailableModes X (rom_loaded X final) (arg_num_players args) = []"
  shows "init X args = Inl IndexError \<and> init X args \<noteq> Inl AssertionError"
  using assms by (simp add: init_def select_mode_def py_index_def)

theorem no_mode_listed_raises_IndexError_witness:
  "arg_obs_type (default_args ''pong'' 3) \<in> {''ram'', ''rgb_image'', ''grayscale_image''}
   \<and> find_rom demo_X (rom_start demo_X (default_args ''pong'' 3)) (arg_game (default_args ''pong'' 3))
       = Inr [''ale'', ''roms'', ''pong.bin'']
   \<and> arg_mode_num (default_args ''pong'' 3) = None
   \<and> getAvailableModes demo_X (rom_loaded demo_X [''ale'', ''roms'', ''pong.bin''])
         (arg_num_players (default_args ''pong'' 3)) = []
   \<and> init demo_X (default_args ''pong'' 3) = Inl IndexError
   \<and> init demo_X (default_args ''pong'' 3) \<noteq> Inl AssertionError"
proof -
  let ?A = "default_args ''pong'' 3"
  have h1: "arg_obs_type ?A \<in> {''ram'', ''rgb_image'', ''grayscale_image''}"
    by (simp add: default_args_def)
  have h2: "find_rom demo_X (rom_start demo_X ?A) (arg_game ?A) = Inr [''ale'', ''roms'', ''pong.bin'']"
    by (simp add: find_rom_def rom_start_def default_args_def demo_X_def)
  have h3: "arg_mode_num ?A = None" by (simp add: default_args_def)
  have h4: "getAvailableModes demo_X (rom_loaded demo_X [''ale'', ''roms'', ''pong.bin''])
              (arg_num_players ?A) = []"
    by (simp add: default_args_def demo_X_def)
  from no_mode_listed_raises_IndexError [OF h1 h2 h3 h4] h1 h2 h3 h4 show ?thesis by blast
qed

text \<open>
  Claim C9. Without a render mode, \<^verbatim>\<open>render\<close> does not fail: it writes the warning,
  returns no frame, and leaves the adapter, with the emulator in it, as it was.
\<close>

theorem render_without_mode:
  assumes "render_mode self = None"
  shows "render X self = Inr ((None, [render_warning]), self)"
  using assms by (simp add: render_def)

theorem render_without_mode_witness:
  "render_mode (demo_env 1 [''first_0'', ''second_0''] (Some 1)) = None
   \<and> render demo_X (demo_env 1 [''first_0'', ''second_0''] (Some 1))
       = Inr ((None, [render_warning]), demo_env 1 [''first_0'', ''second_0''] (Some 1))"
proof -
  have h: "render_mode (demo_env 1 [''first_0'', ''second_0''] (Some 1)) = None"
    by (simp add: demo_env_def)
  from h render_without_mode [OF h, of demo_X] show ?thesis by blast
qed

text \<open>
  Claim C10. Pruning is driven by the termination flags alone: after a call of
  \<^verbatim>\<open>step\<close> that returns, the active list is the old one filtered by the returned
  termination flags, and when every active agent's truncation flag is true and none has a
  true termination flag, the active list is unchanged.
\<close>

theorem step_prunes_by_termination_only:
  assumes st: "step X self action_dict = Inr (ret, self')"
  shows "agents self' = filter (\<lambda>a. map_of (terminations ret) a = Some False) (agents self)
       \<and> ((\<forall>a \<in> set (agents self). map_of (truncations ret) a = Some True
              \<and> map_of (terminations ret) a \<noteq> Some True) \<longrightarrow>
            agents self' = agents self)"
proof -
  have ag: "agents self' = filter (\<lambda>a. map_of (terminations ret) a = Some False) (agents self)"
    by (rule step_agents [OF st])
  have flagged: "map_of (terminations ret) a \<noteq> None" if "a \<in> set (agents self)" for a
    using that terminations_keys_of_step [OF st] by (simp add: keys_def map_of_eq_None_iff)
  have "agents self' = agents self"
    if none: "\<forall>a \<in> set (agents self). map_of (terminations ret) a \<noteq> Some True"
  proof -
    have "map_of (terminations ret) a = Some False" if a: "a \<in> set (agents self)" for a
    proof -
      from flagged [OF a] obtain t where t: "map_of (terminations ret) a = Some t" by blast
      with none a show ?thesis by (cases t) auto
    qed
    then show ?thesis unfolding ag by simp
  qed
  with ag show ?thesis by blast
qed

theorem step_prunes_by_termination_only_witness:
  "step demo_X ((demo_env 0 [''first_0'', ''second_0''] (Some 0))\<lparr>max_cycles := 1\<rparr>)
         [(''first_0'', 2), (''second_0'', 5)]
     = Inr (demo_ret [(''first_0'', 1), (''second_0'', 1)] [(''first_0'', 3), (''second_0'', 12)]
              [(''first_0'', False), (''second_0'', False)]
              [(''first_0'', True), (''second_0'', True)],
            (demo_env 1 [''first_0'', ''second_0''] (Some 1))\<lparr>max_cycles := 1\<rparr>)
   \<and> map_of [(''first_0'', True), (''second_0'', True)] ''first_0'' = Some True
   \<and> map_of [(''first_0'', True), (''second_0'', True)] ''second_0'' = Some True
   \<and> map_of [(''first_0'', False), (''second_0'', False)] ''first_0'' \<noteq> Some True
   \<and> map_of [(''first_0'', False), (''second_0'', False)] ''second_0'' \<noteq> Some True
   \<and> agents ((demo_env 1 [''first_0'', ''second_0''] (Some 1))\<lparr>max_cycles := 1\<rparr>)
       = agents ((demo_env 0 [''first_0'', ''second_0''] (Some 0))\<lparr>max_cycles := 1\<rparr>)"
proof -
  let ?E0 = "(demo_env 0 [''first_0'', ''second_0''] (Some 0))\<lparr>max_cycles := 1\<rparr>"
  let ?E1 = "(demo_env 1 [''first_0'', ''second_0''] (Some 1))\<lparr>max_cycles := 1\<rparr>"
  let ?R = "demo_ret [(''first_0'', 1), (''second_0'', 1)] [(''first_0'', 3), (''second_0'', 12)]
              [(''first_0'', False), (''second_0'', False)]
              [(''first_0'', True), (''second_0'', True)]"
  note c = step_prunes_by_termination_only [OF demo_step_truncated]
  have flags: "\<forall>a \<in> set (agents ?E0). map_of (truncations ?R) a = Some True
              \<and> map_of (terminations ?R) a \<noteq> Some True"
    by (simp add: demo_env_def demo_ret_def)
  from c flags have same: "agents ?E1 = agents ?E0" by blast
  have "map_of [(''first_0'', True), (''second_0'', True)] ''first_0'' = Some True"
    "map_of [(''first_0'', True), (''second_0'', True)] ''second_0'' = Some True"
    "map_of [(''first_0'', False), (''second_0'', False)] ''first_0'' \<noteq> Some True"
    "map_of [(''first_0'', False), (''second_0'', False)] ''second_0'' \<noteq> Some True"
    by simp_all
  with demo_step_truncated same show ?thesis by blast
qed

end
